theory Spec2Isabelle
  imports Complex_Main "HOL-Library.Word"
begin

section \<open>JavaScript strings\<close>

text \<open>
  A JavaScript string is a sequence of UTF-16 code units; it is modelled as the list of
  their numeric values. \<open>str\<close> embeds an ASCII literal. The characters outside ASCII that
  occur in the message literals of the chat component are given by their code units.
\<close>

type_synonym js_string = "nat list"

definition str :: "string \<Rightarrow> js_string" where
  "str s = map of_char s"

text \<open>
  \<open>String.prototype.trim\<close> removes the ECMAScript WhiteSpace and LineTerminator code
  points from both ends: TAB, LF, VT, FF, CR, SPACE, NBSP, U+1680, U+2000..U+200A, U+2028,
  U+2029, U+202F, U+205F, U+3000 and U+FEFF.
\<close>

definition isWhiteSpace :: "nat \<Rightarrow> bool" where
  "isWhiteSpace c =
     (c \<in> set [9, 10, 11, 12, 13, 32, 160, 5760, 8232, 8233, 8239, 8287, 12288, 65279]
      \<or> (8192 \<le> c \<and> c \<le> 8202))"

definition trim :: "js_string \<Rightarrow> js_string" where
  "trim s = rev (dropWhile isWhiteSpace (rev (dropWhile isWhiteSpace s)))"


definition endsWith :: "js_string \<Rightarrow> js_string \<Rightarrow> bool" where
  "endsWith s t = (length t \<le> length s \<and> drop (length s - length t) s = t)"


text \<open>Decimal rendering of a natural number, as a template literal renders it.\<close>

fun digits :: "nat \<Rightarrow> js_string" where
  "digits n = (if n < 10 then [48 + n] else digits (n div 10) @ [48 + n mod 10])"

declare digits.simps [simp del]


section \<open>JavaScript numbers\<close>

text \<open>
  Every number of the program is an IEEE 754 double. A count in a reply (placeholders filled,
  attempts made) is a natural number below \<open>2^52\<close>, here a word of 52 bits: such a number is
  a double, and the sum of two of them is formed without rounding.

  The quotient and the product that \<open>progressPercent\<close> forms are rounded to the nearest
  double, ties to the even significand. A positive double is given by a significand \<open>m\<close>
  and an exponent \<open>s\<close>, with the value \<open>m * 2^s\<close>. \<open>round_double a b\<close> is the double nearest
  to the fraction \<open>a / b\<close> of two natural numbers with \<open>b > 0\<close>: it scales the fraction into
  the range of a significand of 53 bits and rounds it to the nearest natural number. The
  numbers here are far from the ends of the exponent range, where the rule would differ.
\<close>

type_synonym count = "52 word"

fun bitlen :: "nat \<Rightarrow> nat" where
  "bitlen n = (if n = 0 then 0 else Suc (bitlen (n div 2)))"

declare bitlen.simps [simp del]

definition round_half_even :: "nat \<Rightarrow> nat \<Rightarrow> nat" where
  "round_half_even n d =
     (let q = n div d; r = n mod d
      in if 2 * r < d then q
         else if d < 2 * r then q + 1
         else if even q then q else q + 1)"

definition round_double :: "nat \<Rightarrow> nat \<Rightarrow> nat \<times> int" where
  "round_double a b =
     (if a = 0 then (0, 0)
      else
        (let k = int (bitlen a) - int (bitlen b);
             e = (if a * 2 ^ nat (- k) < b * 2 ^ nat k then k - 1 else k);
             s = e - 52
         in (round_half_even (a * 2 ^ nat (- s)) (b * 2 ^ nat s), s)))"

definition double_value :: "nat \<times> int \<Rightarrow> rat" where
  "double_value d = of_nat (fst d) * power_int 2 (snd d)"

text \<open>The product of a double with the number 100.\<close>

definition times_100 :: "nat \<times> int \<Rightarrow> nat \<times> int" where
  "times_100 d = round_double (100 * fst d * 2 ^ nat (snd d)) (2 ^ nat (- snd d))"


section \<open>Template literals\<close>

text \<open>
  A template literal renders a property that is absent from the response object as the text
  \<open>undefined\<close>; \<open>data.attempts + 1\<close> on an absent \<open>attempts\<close> is \<open>NaN\<close>.
\<close>

definition tmpl :: "js_string option \<Rightarrow> js_string" where
  "tmpl v = (case v of None \<Rightarrow> str ''undefined'' | Some t \<Rightarrow> t)"

definition tmpl_plus_one :: "count option \<Rightarrow> js_string" where
  "tmpl_plus_one v = (case v of None \<Rightarrow> str ''NaN'' | Some n \<Rightarrow> digits (unat n + 1))"

text \<open>\<open>a || b\<close> on a string property: the absent and the empty string are falsy.\<close>

definition or_else :: "js_string option \<Rightarrow> js_string \<Rightarrow> js_string" where
  "or_else v d = (case v of None \<Rightarrow> d | Some t \<Rightarrow> if t = [] then d else t)"


section \<open>Data of the chat component (App.js, \<open>Chat\<close>)\<close>

text \<open>
  One element of \<open>data.placeholders\<close> in the answer of \<open>GET /placeholders/<ref>\<close>.
  \<open>prompt_text\<close> may be absent; the component then builds a default question.
\<close>

record placeholder =
  placeholder_id :: js_string
  placeholder_name :: js_string
  prompt_text :: "js_string option"
  status :: js_string

datatype msg_type = Bot | User | Error

record message =
  msg_type :: msg_type
  msg_text :: js_string
  msg_placeholder :: "placeholder option"

definition bot :: "js_string \<Rightarrow> message" where
  "bot t = \<lparr>msg_type = Bot, msg_text = t, msg_placeholder = None\<rparr>"

definition user :: "js_string \<Rightarrow> message" where
  "user t = \<lparr>msg_type = User, msg_text = t, msg_placeholder = None\<rparr>"

definition error :: "js_string \<Rightarrow> message" where
  "error t = \<lparr>msg_type = Error, msg_text = t, msg_placeholder = None\<rparr>"

text \<open>The state of \<open>Chat\<close>: one field per \<open>useState\<close> hook.\<close>

record chat =
  messages :: "message list"
  input :: js_string
  loading :: bool
  progress_filled :: nat
  progress_total :: nat
  currentPlaceholder :: "placeholder option"
  showAutoSuggest :: bool

definition initial_chat :: chat where
  "initial_chat = \<lparr>messages = [], input = [], loading = False, progress_filled = 0,
     progress_total = 0, currentPlaceholder = None, showAutoSuggest = False\<rparr>"

text \<open>The JSON bodies the component reads.\<close>

record placeholders_data =
  data_filled :: count
  data_auto_filled :: count
  data_total :: count
  data_placeholders :: "placeholder list"

record fill_data =
  data_status :: "js_string option"
  normalized_value :: "js_string option"
  hint :: "js_string option"
  attempts :: "count option"
  data_value :: "js_string option"

record generate_data =
  gen_status :: "js_string option"
  final_document :: js_string
  gen_error :: "js_string option"

text \<open>
  What a handler does to the world outside the component state: the requests it sends, the
  timer it sets and the callback of the parent it calls. The reference number in the URLs is
  a property of the component and the same in every request, so it is left out.
\<close>

datatype effect =
    FetchPlaceholders
  | FetchFill js_string js_string bool
  | FetchGenerate
  | SetTimeout_loadNextQuestion
  | OnComplete js_string

text \<open>
  An awaited request either throws (network failure, unreadable body; \<open>Inl\<close> of the error's
  message, the \<open>catch\<close> branch) or yields the parsed body (\<open>Inr\<close>). Each handler is first given
  as one function from the outcome of its requests and the state to the new state and the
  effects, in the order the source performs them: the handler as it runs when nothing else
  happens while it waits. The parts of a handler before and after an awaited request follow,
  and a session runs the parts as separate events.
\<close>

type_synonym 'a outcome = "js_string + 'a"


section \<open>The handlers of the chat component\<close>

definition generateFinalDoc :: "generate_data outcome \<Rightarrow> chat \<Rightarrow> chat \<times> effect list" where
  "generateFinalDoc g s =
     (let s1 = s\<lparr>loading := True,
                 messages := messages s @
                   [bot ([55356, 57225] @ str '' All placeholders filled! Generating final document...'')]\<rparr>
      in case g of
           Inl err \<Rightarrow>
             (s1\<lparr>messages := messages s1 @ [error (str ''Error: '' @ err)], loading := False\<rparr>,
              [FetchGenerate])
         | Inr data \<Rightarrow>
             if gen_status data = Some (str ''ok'')
             then (s1\<lparr>loading := False\<rparr>, [FetchGenerate, OnComplete (final_document data)])
             else (s1\<lparr>messages := messages s1 @
                        [error (str ''Error generating document: '' @
                                or_else (gen_error data) (str ''Unknown error''))],
                      loading := False\<rparr>,
                   [FetchGenerate]))"

definition questionText :: "placeholder \<Rightarrow> js_string" where
  "questionText pending =
     or_else (prompt_text pending) (str ''Please provide '' @ placeholder_name pending)"

text \<open>The inner updater of \<open>setMessages\<close>: skip the question when it is the last message.\<close>

definition add_question :: "placeholder \<Rightarrow> message list \<Rightarrow> message list" where
  "add_question pending prev =
     (if prev \<noteq> [] \<and> msg_type (last prev) = Bot \<and> msg_text (last prev) = questionText pending
      then prev
      else prev @ [\<lparr>msg_type = Bot, msg_text = questionText pending,
                     msg_placeholder = Some pending\<rparr>])"

text \<open>The updater of \<open>setCurrentPlaceholder\<close>.\<close>

definition set_pending :: "placeholder \<Rightarrow> chat \<Rightarrow> chat" where
  "set_pending pending s =
     (let s' = (case currentPlaceholder s of
                  None \<Rightarrow> s\<lparr>messages := add_question pending (messages s)\<rparr>
                | Some prevPlaceholder \<Rightarrow>
                    if placeholder_id prevPlaceholder \<noteq> placeholder_id pending
                    then s\<lparr>messages := add_question pending (messages s)\<rparr>
                    else s)
      in s'\<lparr>currentPlaceholder := Some pending\<rparr>)"

definition loadNextQuestion ::
    "placeholders_data outcome \<Rightarrow> generate_data outcome \<Rightarrow> chat \<Rightarrow> chat \<times> effect list" where
  "loadNextQuestion r g s =
     (let s1 = s\<lparr>loading := True\<rparr>
      in case r of
           Inl err \<Rightarrow>
             (s1\<lparr>messages := messages s1 @ [error (str ''Error loading questions: '' @ err)],
                 loading := False\<rparr>,
              [FetchPlaceholders])
         | Inr data \<Rightarrow>
             (let s2 = s1\<lparr>progress_filled := unat (data_filled data) + unat (data_auto_filled data),
                          progress_total := unat (data_total data)\<rparr>
              in case find (\<lambda>p. status p = str ''pending'') (data_placeholders data) of
                   Some pending \<Rightarrow> ((set_pending pending s2)\<lparr>loading := False\<rparr>, [FetchPlaceholders])
                 | None \<Rightarrow>
                     (let (s3, effs) = generateFinalDoc g s2
                      in (s3\<lparr>loading := False\<rparr>, FetchPlaceholders # effs))))"

text \<open>The branch of \<open>handleSubmit\<close> on \<open>data.status\<close> (no final \<open>else\<close>).\<close>

definition on_status :: "fill_data \<Rightarrow> chat \<Rightarrow> chat \<times> effect list" where
  "on_status data s =
     (if data_status data = Some (str ''accepted'')
      then (s\<lparr>messages := messages s @
                 [bot ([10003] @ str '' Got it! Saved as: '' @ tmpl (normalized_value data))],
               showAutoSuggest := False\<rparr>,
            [SetTimeout_loadNextQuestion])
      else if data_status data = Some (str ''rejected'')
      then (s\<lparr>messages := messages s @
                 [bot ([10060] @ str '' '' @ tmpl (hint data) @ [10, 10] @
                       str ''Please try again (Attempt '' @ tmpl_plus_one (attempts data) @
                       str ''/2)'')]\<rparr>,
            [])
      else if data_status data = Some (str ''offer_auto_suggest'')
      then (s\<lparr>messages := messages s @
                 [bot ([55358, 56596] @
                       str '' Having trouble? I can suggest a value based on the document context.'')],
               showAutoSuggest := True\<rparr>,
            [])
      else if data_status data = Some (str ''auto_filled'')
      then (s\<lparr>messages := messages s @
                 [bot ([10024] @ str '' Auto-filled with: '' @ tmpl (data_value data))],
               showAutoSuggest := False\<rparr>,
            [SetTimeout_loadNextQuestion])
      else (s, []))"

text \<open>
  What \<open>handleSubmit\<close> does once the awaited request has settled: the \<open>catch\<close> branch
  or the branch on the status, and then the \<open>finally\<close> block.
\<close>

definition submit_response :: "fill_data outcome \<Rightarrow> chat \<Rightarrow> chat \<times> effect list" where
  "submit_response resp s1 =
     (case resp of
        Inl err \<Rightarrow>
          (s1\<lparr>messages := messages s1 @ [error (str ''Error: '' @ err)], loading := False\<rparr>, [])
      | Inr data \<Rightarrow>
          (let (s2, effs) = on_status data s1 in (s2\<lparr>loading := False\<rparr>, effs)))"

definition handleSubmit :: "fill_data outcome \<Rightarrow> chat \<Rightarrow> chat \<times> effect list" where
  "handleSubmit resp s =
     (case currentPlaceholder s of
        None \<Rightarrow> (s, [])
      | Some cp \<Rightarrow>
          if trim (input s) = [] then (s, [])
          else
            (let userMessage = trim (input s);
                 s1 = s\<lparr>input := [], messages := messages s @ [user userMessage], loading := True\<rparr>;
                 req = FetchFill (placeholder_id cp) userMessage (showAutoSuggest s);
                 (s2, effs) = submit_response resp s1
             in (s2, req # effs)))"

definition handleSkipAutoSuggest :: "chat \<Rightarrow> chat" where
  "handleSkipAutoSuggest s =
     s\<lparr>showAutoSuggest := False,
       messages := messages s @ [bot (str ''Okay, please provide the value manually.'')]\<rparr>"

text \<open>
  \<open>handleAcceptAutoSuggest\<close> reads \<open>currentPlaceholder.placeholder_id\<close> inside its \<open>try\<close>
  block without a test for \<open>null\<close>: with no active placeholder the read throws a TypeError,
  which the \<open>catch\<close> branch reports, and no request is sent. The wording of that error is
  the JavaScript engine's; \<open>null_read_message\<close> stands for it.
\<close>

definition null_read_message :: js_string where
  "null_read_message = str ''Cannot read properties of null''"

definition handleAcceptAutoSuggest :: "fill_data outcome \<Rightarrow> chat \<Rightarrow> chat \<times> effect list" where
  "handleAcceptAutoSuggest resp s =
     (let s1 = s\<lparr>messages := messages s @ [user (str ''(Accept auto-suggestion)'')],
                 input := str ''dummy'', showAutoSuggest := True, loading := True\<rparr>
      in case currentPlaceholder s of
           None \<Rightarrow>
             (s1\<lparr>messages := messages s1 @ [error (str ''Error: '' @ null_read_message)],
                 loading := False\<rparr>,
              [])
         | Some cp \<Rightarrow>
             (let req = FetchFill (placeholder_id cp) (str ''auto'') True
              in case resp of
                   Inl err \<Rightarrow>
                     (s1\<lparr>messages := messages s1 @ [error (str ''Error: '' @ err)],
                         loading := False\<rparr>,
                      [req])
                 | Inr data \<Rightarrow>
                     if data_status data = Some (str ''auto_filled'')
                     then (s1\<lparr>messages := messages s1 @
                                [bot ([10024] @ str '' Auto-filled with: '' @ tmpl (data_value data))],
                              showAutoSuggest := False, loading := False\<rparr>,
                           [req, SetTimeout_loadNextQuestion])
                     else (s1\<lparr>loading := False\<rparr>, [req])))"

text \<open>What the header shows: the count, and the width of the progress bar in percent.\<close>

definition displayed_count :: "chat \<Rightarrow> nat" where
  "displayed_count s = progress_filled s"

definition progressPercent :: "chat \<Rightarrow> rat" where
  "progressPercent s =
     (if progress_total s > 0
      then double_value (times_100 (round_double (progress_filled s) (progress_total s)))
      else 0)"

text \<open>The \<open>disabled\<close> attribute of the send button and of the text field.\<close>

definition send_disabled :: "chat \<Rightarrow> bool" where
  "send_disabled s = (loading s \<or> trim (input s) = [] \<or> showAutoSuggest s)"

definition input_disabled :: "chat \<Rightarrow> bool" where
  "input_disabled s = (loading s \<or> showAutoSuggest s)"


section \<open>The handlers in parts\<close>

text \<open>
  The handlers are asynchronous: a handler runs up to the request it awaits, and goes on when
  the reply arrives; other handlers run in between. The part after the reply reads nothing of
  the state the handler started in: it uses the reply and the updater form of the setters.

  \<open>loadNextQuestion\<close> awaits the placeholders and then, through \<open>generateFinalDoc\<close>, the final
  document; its \<open>finally\<close> block clears the loading flag that \<open>generateFinalDoc\<close> has
  cleared before.
\<close>

definition load_start :: "chat \<Rightarrow> chat \<times> effect list" where
  "load_start s = (s\<lparr>loading := True\<rparr>, [FetchPlaceholders])"

definition generate_start :: "chat \<Rightarrow> chat \<times> effect list" where
  "generate_start s =
     (s\<lparr>loading := True,
        messages := messages s @
          [bot ([55356, 57225] @ str '' All placeholders filled! Generating final document...'')]\<rparr>,
      [FetchGenerate])"

definition generate_response :: "generate_data outcome \<Rightarrow> chat \<Rightarrow> chat \<times> effect list" where
  "generate_response g s1 =
     (case g of
        Inl err \<Rightarrow>
          (s1\<lparr>messages := messages s1 @ [error (str ''Error: '' @ err)], loading := False\<rparr>, [])
      | Inr data \<Rightarrow>
          if gen_status data = Some (str ''ok'')
          then (s1\<lparr>loading := False\<rparr>, [OnComplete (final_document data)])
          else (s1\<lparr>messages := messages s1 @
                     [error (str ''Error generating document: '' @
                             or_else (gen_error data) (str ''Unknown error''))],
                   loading := False\<rparr>,
                []))"

definition load_response :: "placeholders_data outcome \<Rightarrow> chat \<Rightarrow> chat \<times> effect list" where
  "load_response r s1 =
     (case r of
        Inl err \<Rightarrow>
          (s1\<lparr>messages := messages s1 @ [error (str ''Error loading questions: '' @ err)],
              loading := False\<rparr>,
           [])
      | Inr data \<Rightarrow>
          (let s2 = s1\<lparr>progress_filled := unat (data_filled data) + unat (data_auto_filled data),
                       progress_total := unat (data_total data)\<rparr>
           in case find (\<lambda>p. status p = str ''pending'') (data_placeholders data) of
                Some pending \<Rightarrow> ((set_pending pending s2)\<lparr>loading := False\<rparr>, [])
              | None \<Rightarrow> generate_start s2))"

definition submit_start :: "chat \<Rightarrow> chat \<times> effect list" where
  "submit_start s =
     (case currentPlaceholder s of
        None \<Rightarrow> (s, [])
      | Some cp \<Rightarrow>
          if trim (input s) = [] then (s, [])
          else (s\<lparr>input := [], messages := messages s @ [user (trim (input s))], loading := True\<rparr>,
                [FetchFill (placeholder_id cp) (trim (input s)) (showAutoSuggest s)]))"

definition accept_start :: "chat \<Rightarrow> chat \<times> effect list" where
  "accept_start s =
     (let s1 = s\<lparr>messages := messages s @ [user (str ''(Accept auto-suggestion)'')],
                 input := str ''dummy'', showAutoSuggest := True, loading := True\<rparr>
      in case currentPlaceholder s of
           None \<Rightarrow>
             (s1\<lparr>messages := messages s1 @ [error (str ''Error: '' @ null_read_message)],
                 loading := False\<rparr>,
              [])
         | Some cp \<Rightarrow> (s1, [FetchFill (placeholder_id cp) (str ''auto'') True]))"

definition accept_response :: "fill_data outcome \<Rightarrow> chat \<Rightarrow> chat \<times> effect list" where
  "accept_response resp s1 =
     (case resp of
        Inl err \<Rightarrow>
          (s1\<lparr>messages := messages s1 @ [error (str ''Error: '' @ err)], loading := False\<rparr>, [])
      | Inr data \<Rightarrow>
          if data_status data = Some (str ''auto_filled'')
          then (s1\<lparr>messages := messages s1 @
                     [bot ([10024] @ str '' Auto-filled with: '' @ tmpl (data_value data))],
                   showAutoSuggest := False, loading := False\<rparr>,
                [SetTimeout_loadNextQuestion])
          else (s1\<lparr>loading := False\<rparr>, []))"


section \<open>A session of the chat component\<close>

text \<open>
  The parent component (\<open>App\<close>) shows \<open>Chat\<close> while its \<open>step\<close> is \<open>chat\<close>; the callback
  \<open>onComplete\<close> is its \<open>handleChatComplete\<close>, which stores the name of the final document
  and switches to the completion view, unmounting \<open>Chat\<close>.

  A session records, besides the two component states, how many calls of
  \<open>loadNextQuestion\<close> are scheduled and have not started yet (the effect that runs once after
  mounting, and one per \<open>setTimeout\<close>), the requests that are sent and not answered yet, and
  every effect performed so far. The timers are never cleared and a sent request is never
  aborted, so a scheduled call starts and a reply is handled also after \<open>Chat\<close> is unmounted:
  the state updates are then dropped, the requests, the timers and the call of \<open>onComplete\<close>
  are not.
\<close>

datatype app_step = Upload_step | Chat_step | Complete_step

text \<open>
  A request that awaits its reply: which handler waits for it and, for an answer, the
  placeholder it is addressed to.
\<close>

datatype request =
    PlaceholdersRequest
  | SubmitRequest js_string
  | AcceptRequest js_string
  | GenerateRequest

record session =
  app_step :: app_step
  app_finalDocument :: js_string
  chat_state :: chat
  pending_loads :: nat
  in_flight :: "request list"
  sent :: "effect list"

definition initial_session :: session where
  "initial_session = \<lparr>app_step = Chat_step, app_finalDocument = [], chat_state = initial_chat,
     pending_loads = 1, in_flight = [], sent = []\<rparr>"

definition handleChatComplete :: "js_string \<Rightarrow> session \<Rightarrow> session" where
  "handleChatComplete finalDoc s = s\<lparr>app_finalDocument := finalDoc, app_step := Complete_step\<rparr>"

fun perform :: "session \<Rightarrow> effect \<Rightarrow> session" where
  "perform s SetTimeout_loadNextQuestion =
     s\<lparr>pending_loads := Suc (pending_loads s), sent := sent s @ [SetTimeout_loadNextQuestion]\<rparr>"
| "perform s (OnComplete finalDoc) =
     (handleChatComplete finalDoc s)\<lparr>sent := sent s @ [OnComplete finalDoc]\<rparr>"
| "perform s eff = s\<lparr>sent := sent s @ [eff]\<rparr>"

text \<open>
  The events of a session: a scheduled call of \<open>loadNextQuestion\<close> starts; the user types,
  submits the form, or clicks one of the two auto-suggest buttons; the reply to the request at
  a position of the list of unanswered requests arrives (replies come in any order).

  A user event reaches its handler only through the element that carries it: the text field
  and the send button with their \<open>disabled\<close> attributes, and the two auto-suggest buttons,
  which are rendered only while \<open>showAutoSuggest\<close> holds and have no \<open>disabled\<close> attribute.
  An event that is not possible in a state leaves the session as it is.
\<close>

datatype reply =
    PlaceholdersReply "placeholders_data outcome"
  | FillReply "fill_data outcome"
  | GenerateReply "generate_data outcome"

datatype event =
    Timer
  | Type js_string
  | Send
  | Accept
  | Skip
  | Reply nat reply

text \<open>The part of a handler that a reply to a request resumes.\<close>

fun resume :: "request \<Rightarrow> reply \<Rightarrow> chat \<Rightarrow> (chat \<times> effect list) option" where
  "resume PlaceholdersRequest (PlaceholdersReply r) c = Some (load_response r c)"
| "resume (SubmitRequest pid) (FillReply r) c = Some (submit_response r c)"
| "resume (AcceptRequest pid) (FillReply r) c = Some (accept_response r c)"
| "resume GenerateRequest (GenerateReply r) c = Some (generate_response r c)"
| "resume q r c = None"

text \<open>The request that an event answers, if it answers one.\<close>

fun answered :: "event \<Rightarrow> session \<Rightarrow> request option" where
  "answered (Reply n r) s =
     (if n < length (in_flight s) \<and> resume (in_flight s ! n) r (chat_state s) \<noteq> None
      then Some (in_flight s ! n) else None)"
| "answered e s = None"

fun react :: "event \<Rightarrow> session \<Rightarrow> chat \<times> effect list" where
  "react Timer s =
     (if pending_loads s = 0 then (chat_state s, []) else load_start (chat_state s))"
| "react (Type t) s =
     (if app_step s = Chat_step \<and> \<not> input_disabled (chat_state s)
      then ((chat_state s)\<lparr>input := t\<rparr>, [])
      else (chat_state s, []))"
| "react Send s =
     (if app_step s = Chat_step \<and> \<not> send_disabled (chat_state s)
      then submit_start (chat_state s)
      else (chat_state s, []))"
| "react Accept s =
     (if app_step s = Chat_step \<and> showAutoSuggest (chat_state s)
      then accept_start (chat_state s)
      else (chat_state s, []))"
| "react Skip s =
     (if app_step s = Chat_step \<and> showAutoSuggest (chat_state s)
      then (handleSkipAutoSuggest (chat_state s), [])
      else (chat_state s, []))"
| "react (Reply n r) s =
     (if n < length (in_flight s)
      then (case resume (in_flight s ! n) r (chat_state s) of
              Some result \<Rightarrow> result
            | None \<Rightarrow> (chat_state s, []))
      else (chat_state s, []))"

definition emitted :: "event \<Rightarrow> session \<Rightarrow> effect list" where
  "emitted e s = snd (react e s)"

fun consumes_load :: "event \<Rightarrow> nat" where
  "consumes_load Timer = 1"
| "consumes_load e = 0"

text \<open>The requests still unanswered after an event, and the ones its effects add.\<close>

fun remaining :: "event \<Rightarrow> session \<Rightarrow> request list" where
  "remaining (Reply n r) s =
     (if answered (Reply n r) s = None then in_flight s
      else take n (in_flight s) @ drop (Suc n) (in_flight s))"
| "remaining e s = in_flight s"

fun by_accept :: "event \<Rightarrow> bool" where
  "by_accept Accept = True"
| "by_accept e = False"

fun awaits :: "event \<Rightarrow> effect \<Rightarrow> request list" where
  "awaits e FetchPlaceholders = [PlaceholdersRequest]"
| "awaits e (FetchFill pid u c) = [if by_accept e then AcceptRequest pid else SubmitRequest pid]"
| "awaits e FetchGenerate = [GenerateRequest]"
| "awaits e eff = []"

definition fire :: "session \<Rightarrow> event \<Rightarrow> session" where
  "fire s e =
     foldl perform
       (s\<lparr>chat_state := (if app_step s = Chat_step then fst (react e s) else chat_state s),
          pending_loads := pending_loads s - consumes_load e,
          in_flight := remaining e s @ concat (map (awaits e) (emitted e s))\<rparr>)
       (emitted e s)"

definition run :: "event list \<Rightarrow> session" where
  "run es = foldl fire initial_session es"

text \<open>The session before the event at position \<open>i\<close> of a trace.\<close>

definition before :: "event list \<Rightarrow> nat \<Rightarrow> session" where
  "before es i = run (take i es)"

text \<open>The sessions before each event of a trace, and the effects of each event.\<close>

fun trail :: "event list \<Rightarrow> session \<Rightarrow> session list" where
  "trail [] s = []"
| "trail (e # es) s = s # trail es (fire s e)"

fun effects_log :: "event list \<Rightarrow> session \<Rightarrow> effect list list" where
  "effects_log [] s = []"
| "effects_log (e # es) s = emitted e s # effects_log es (fire s e)"


section \<open>The upload component (Upload.js)\<close>

record js_file =
  file_name :: js_string
  file_size :: nat

record upload =
  file_js :: "js_file option"
  uploading :: bool
  upload_error :: js_string
  dragOver :: bool

record upload_response =
  response_ok :: bool
  data_success :: bool
  data_data :: "js_string \<times> js_string"
  data_error :: "js_string option"

datatype upload_effect = FetchUpload js_file | OnSuccess "js_string \<times> js_string"

text \<open>\<open>files\<close> is the file list of the event; \<open>files[0]\<close> of an empty list is \<open>undefined\<close>.\<close>

definition handleFileChange :: "js_file list \<Rightarrow> upload \<Rightarrow> upload" where
  "handleFileChange files s =
     (case files of
        [] \<Rightarrow> s\<lparr>upload_error := str ''Please select a .docx file''\<rparr>
      | selectedFile # _ \<Rightarrow>
          if endsWith (file_name selectedFile) (str ''.docx'')
          then s\<lparr>file_js := Some selectedFile, upload_error := []\<rparr>
          else s\<lparr>upload_error := str ''Please select a .docx file''\<rparr>)"

definition handleDrop :: "js_file list \<Rightarrow> upload \<Rightarrow> upload" where
  "handleDrop files s =
     (let s1 = s\<lparr>dragOver := False\<rparr>
      in case files of
           [] \<Rightarrow> s1\<lparr>upload_error := str ''Please drop a .docx file''\<rparr>
         | droppedFile # _ \<Rightarrow>
             if endsWith (file_name droppedFile) (str ''.docx'')
             then s1\<lparr>file_js := Some droppedFile, upload_error := []\<rparr>
             else s1\<lparr>upload_error := str ''Please drop a .docx file''\<rparr>)"

definition handleUpload :: "upload_response outcome \<Rightarrow> upload \<Rightarrow> upload \<times> upload_effect list" where
  "handleUpload resp s =
     (case file_js s of
        None \<Rightarrow> (s, [])
      | Some f \<Rightarrow>
          (let s1 = s\<lparr>uploading := True, upload_error := []\<rparr>
           in case resp of
                Inl err \<Rightarrow>
                  (s1\<lparr>upload_error := str ''Network error: '' @ err, uploading := False\<rparr>,
                   [FetchUpload f])
              | Inr r \<Rightarrow>
                  if response_ok r \<and> data_success r
                  then (s1\<lparr>uploading := False\<rparr>, [FetchUpload f, OnSuccess (data_data r)])
                  else (s1\<lparr>upload_error := or_else (data_error r) (str ''Upload failed''),
                           uploading := False\<rparr>,
                        [FetchUpload f])))"


section \<open>The completion view (Complete.js)\<close>





section \<open>Predicates used to state the properties\<close>

text \<open>
  No question is repeated: a message that asks for a placeholder never directly follows a
  bot message with the same text.
\<close>

fun no_repeated_question :: "message list \<Rightarrow> bool" where
  "no_repeated_question (m1 # m2 # ms) =
     (\<not> (msg_placeholder m2 \<noteq> None \<and> msg_type m1 = Bot \<and> msg_text m1 = msg_text m2)
      \<and> no_repeated_question (m2 # ms))"
| "no_repeated_question ms = True"



text \<open>
  The status in the body of a reply to an answer, and whether an event is the reply with the
  status \<open>offer_auto_suggest\<close> to a typed answer for a placeholder.
\<close>

fun reply_status :: "event \<Rightarrow> js_string option" where
  "reply_status (Reply n (FillReply (Inr data))) = data_status data"
| "reply_status e = None"

definition offered :: "js_string \<Rightarrow> event \<Rightarrow> session \<Rightarrow> bool" where
  "offered pid e s =
     (answered e s = Some (SubmitRequest pid)
      \<and> reply_status e = Some (str ''offer_auto_suggest''))"

text \<open>The identifier of the placeholder that is active in a session.\<close>

definition active_id :: "session \<Rightarrow> js_string option" where
  "active_id s = map_option placeholder_id (currentPlaceholder (chat_state s))"

text \<open>The user declines the offer: the skip button is there and is clicked.\<close>

definition declined :: "event \<Rightarrow> session \<Rightarrow> bool" where
  "declined e s = (e = Skip \<and> app_step s = Chat_step \<and> showAutoSuggest (chat_state s))"

fun is_OnComplete :: "effect \<Rightarrow> bool" where
  "is_OnComplete (OnComplete finalDoc) = True"
| "is_OnComplete eff = False"

fun is_consent_request :: "effect \<Rightarrow> bool" where
  "is_consent_request (FetchFill pid txt consent) = consent"
| "is_consent_request eff = False"

fun is_request_for :: "js_string \<Rightarrow> effect \<Rightarrow> bool" where
  "is_request_for pid (FetchFill p u c) = (p = pid)"
| "is_request_for pid eff = False"


section \<open>The classification of a session\<close>






section \<open>Example responses and sessions\<close>

definition ph :: "string \<Rightarrow> string \<Rightarrow> placeholder" where
  "ph i st = \<lparr>placeholder_id = str i, placeholder_name = str ''Company Name'',
     prompt_text = None, status = str st\<rparr>"

definition listing :: "count \<Rightarrow> count \<Rightarrow> placeholder list \<Rightarrow> placeholders_data outcome" where
  "listing f a ps = Inr \<lparr>data_filled = f, data_auto_filled = a, data_total = of_nat (length ps),
     data_placeholders = ps\<rparr>"

definition answer :: "string \<Rightarrow> fill_data" where
  "answer st = \<lparr>data_status = Some (str st), normalized_value = None, hint = None,
     attempts = None, data_value = None\<rparr>"

definition generated :: "string \<Rightarrow> generate_data outcome" where
  "generated n = Inr \<lparr>gen_status = Some (str ''ok''), final_document = str n, gen_error = None\<rparr>"

text \<open>The state in which \<open>handleSubmit\<close> awaits the answer to the input \<open>x\<close>.\<close>

definition awaiting_answer :: chat where
  "awaiting_answer = initial_chat\<lparr>messages := [user (str ''x'')], loading := True,
     currentPlaceholder := Some (ph ''p1'' ''pending'')\<rparr>"

text \<open>The first question is loaded, an answer is typed and sent.\<close>

definition first_answer :: "event list" where
  "first_answer = [Timer, Reply 0 (PlaceholdersReply (listing 0 0 [ph ''p1'' ''pending''])),
     Type (str ''x''), Send]"

text \<open>An offer that the user accepts.\<close>

definition offer_trace :: "event list" where
  "offer_trace = first_answer @
     [Reply 0 (FillReply (Inr (answer ''offer_auto_suggest''))), Accept]"

text \<open>Two answers, both rejected.\<close>

definition rejected_trace :: "event list" where
  "rejected_trace = first_answer @
     [Reply 0 (FillReply (Inr (answer ''rejected''))), Type (str ''y''), Send,
      Reply 0 (FillReply (Inr (answer ''rejected'')))]"

text \<open>
  A second answer is sent within the second between an accepted answer and the load of the
  next question, and is answered with an offer; the next question then replaces the active
  placeholder while the offer is still shown.
\<close>

definition race_trace :: "event list" where
  "race_trace =
     [Timer, Reply 0 (PlaceholdersReply (listing 0 0 [ph ''p1'' ''pending'', ph ''p2'' ''pending''])),
      Type (str ''a''), Send, Reply 0 (FillReply (Inr (answer ''accepted''))),
      Type (str ''b''), Send, Reply 0 (FillReply (Inr (answer ''offer_auto_suggest''))),
      Timer, Reply 0 (PlaceholdersReply (listing 1 0 [ph ''p1'' ''accepted'', ph ''p2'' ''pending''])),
      Accept]"

text \<open>
  Requests overlap: the accept button is clicked twice and the offer is then declined; the
  first reply is a rejection, which ends the loading state, so that the text \<open>dummy\<close> left
  in the field can be sent while the second request with consent is still unanswered. That
  request is answered with \<open>auto_filled\<close>, the typed answer with an offer, and the next
  question replaces the active placeholder while the offer is shown.
\<close>

definition overlap_trace :: "event list" where
  "overlap_trace = first_answer @
     [Reply 0 (FillReply (Inr (answer ''offer_auto_suggest''))), Accept, Accept, Skip,
      Reply 0 (FillReply (Inr (answer ''rejected''))), Send,
      Reply 0 (FillReply (Inr (answer ''auto_filled''))),
      Reply 0 (FillReply (Inr (answer ''offer_auto_suggest''))),
      Timer,
      Reply 0 (PlaceholdersReply (listing 0 1 [ph ''p1'' ''auto_filled'', ph ''p2'' ''pending''])),
      Accept]"





section \<open>Facts about strings\<close>

lemma str_eq_iff [simp]: "str a = str b \<longleftrightarrow> a = b"
proof -
  have "inj (of_char :: char \<Rightarrow> nat)" by (rule inj_of_char)
  then show ?thesis unfolding str_def by (simp add: inj_map_eq_map)
qed

lemma endsWith_iff: "endsWith s t \<longleftrightarrow> (\<exists>pre. s = pre @ t)"
proof
  assume "endsWith s t"
  then have "s = take (length s - length t) s @ t"
    by (metis append_take_drop_id endsWith_def)
  then show "\<exists>pre. s = pre @ t" by blast
next
  assume "\<exists>pre. s = pre @ t"
  then show "endsWith s t" by (auto simp: endsWith_def)
qed



lemma trim_blank: "\<forall>c\<in>set s. isWhiteSpace c \<Longrightarrow> trim s = []"
  by (auto simp: trim_def dest: set_dropWhileD)

lemma find_first:
  "ps = pre @ p # post \<Longrightarrow> \<forall>q\<in>set pre. \<not> P q \<Longrightarrow> P p \<Longrightarrow> find P ps = Some p"
  by (induction pre arbitrary: ps) auto

text \<open>The definitions a concrete session is evaluated with.\<close>

lemmas eval_defs = before_def run_def fire_def emitted_def initial_session_def initial_chat_def
  load_start_def load_response_def generate_start_def generate_response_def submit_start_def
  submit_response_def accept_start_def accept_response_def on_status_def set_pending_def
  add_question_def questionText_def or_else_def handleSkipAutoSuggest_def send_disabled_def
  input_disabled_def trim_def isWhiteSpace_def handleChatComplete_def ph_def listing_def
  answer_def generated_def bot_def user_def error_def tmpl_def Let_def str_def


section \<open>The handlers, one by one\<close>

lemma generateFinalDoc_progress:
  "progress_filled (fst (generateFinalDoc g s)) = progress_filled s"
  "progress_total (fst (generateFinalDoc g s)) = progress_total s"
  by (auto simp: generateFinalDoc_def Let_def split: sum.splits)

lemma set_pending_progress:
  "progress_filled (set_pending p s) = progress_filled s"
  "progress_total (set_pending p s) = progress_total s"
  by (auto simp: set_pending_def Let_def split: option.splits)

lemma loadNextQuestion_progress:
  "progress_filled (fst (loadNextQuestion (Inr data) g s))
     = unat (data_filled data) + unat (data_auto_filled data)"
  "progress_total (fst (loadNextQuestion (Inr data) g s)) = unat (data_total data)"
  by (simp_all add: loadNextQuestion_def Let_def case_prod_beta generateFinalDoc_progress
      set_pending_progress split: option.splits)

lemma set_pending_current: "currentPlaceholder (set_pending p s) = Some p"
  by (simp add: set_pending_def Let_def split: option.splits)

lemma set_pending_flag: "showAutoSuggest (set_pending p s) = showAutoSuggest s"
  by (simp add: set_pending_def Let_def split: option.splits)

lemma add_question_last:
  "add_question p ms \<noteq> [] \<and> msg_type (last (add_question p ms)) = Bot
   \<and> msg_text (last (add_question p ms)) = questionText p"
  by (simp add: add_question_def)

lemma loadNextQuestion_pending:
  assumes "find (\<lambda>q. status q = str ''pending'') (data_placeholders data) = Some p"
  shows "loadNextQuestion (Inr data) g s =
    ((set_pending p (s\<lparr>loading := True,
        progress_filled := unat (data_filled data) + unat (data_auto_filled data),
        progress_total := unat (data_total data)\<rparr>))\<lparr>loading := False\<rparr>, [FetchPlaceholders])"
  using assms by (simp add: loadNextQuestion_def Let_def)

lemma on_status_other:
  "data_status data \<notin> Some ` {str ''accepted'', str ''rejected'', str ''offer_auto_suggest'',
      str ''auto_filled''} \<Longrightarrow> on_status data s = (s, [])"
  by (auto simp: on_status_def)

lemma on_status_known:
  "data_status data \<in> Some ` {str ''accepted'', str ''rejected'', str ''offer_auto_suggest'',
      str ''auto_filled''} \<Longrightarrow> \<exists>t. messages (fst (on_status data s)) = messages s @ [bot t]"
  by (auto simp: on_status_def)


section \<open>The next question\<close>

text \<open>
  Claim C4. When the list of a placeholders response has an element with status \<open>pending\<close>,
  \<open>loadNextQuestion\<close> makes the first such element the current placeholder (the state holds
  at most one), sends nothing but the request for the list, leaves the question of a newly
  active placeholder as the last message, and the next answer that is submitted is addressed
  to the identifier of that placeholder.
\<close>

theorem loadNextQuestion_activates_first_pending:
  assumes "data_placeholders data = pre @ p # post"
    and "\<forall>q\<in>set pre. status q \<noteq> str ''pending''"
    and "status p = str ''pending''"
  shows "currentPlaceholder (fst (loadNextQuestion (Inr data) g s)) = Some p
     \<and> snd (loadNextQuestion (Inr data) g s) = [FetchPlaceholders]
     \<and> ((\<forall>c. currentPlaceholder s = Some c \<longrightarrow> placeholder_id c \<noteq> placeholder_id p) \<longrightarrow>
          messages (fst (loadNextQuestion (Inr data) g s)) \<noteq> []
          \<and> msg_type (last (messages (fst (loadNextQuestion (Inr data) g s)))) = Bot
          \<and> msg_text (last (messages (fst (loadNextQuestion (Inr data) g s)))) = questionText p)
     \<and> (trim t \<noteq> [] \<longrightarrow>
          hd (snd (handleSubmit resp ((fst (loadNextQuestion (Inr data) g s))\<lparr>input := t\<rparr>)))
            = FetchFill (placeholder_id p) (trim t) (showAutoSuggest s))"
proof -
  have f: "find (\<lambda>q. status q = str ''pending'') (data_placeholders data) = Some p"
    using assms by (intro find_first[where pre = pre and post = post]) auto
  note l = loadNextQuestion_pending[OF f]
  have 1: "currentPlaceholder (fst (loadNextQuestion (Inr data) g s)) = Some p"
    by (simp add: l set_pending_current)
  have 2: "snd (loadNextQuestion (Inr data) g s) = [FetchPlaceholders]"
    by (simp add: l)
  have 3: "(\<forall>c. currentPlaceholder s = Some c \<longrightarrow> placeholder_id c \<noteq> placeholder_id p) \<longrightarrow>
          messages (fst (loadNextQuestion (Inr data) g s)) \<noteq> []
          \<and> msg_type (last (messages (fst (loadNextQuestion (Inr data) g s)))) = Bot
          \<and> msg_text (last (messages (fst (loadNextQuestion (Inr data) g s)))) = questionText p"
    using add_question_last[of p "messages s"]
    by (auto simp: l set_pending_def Let_def split: option.splits)
  have 4: "trim t \<noteq> [] \<longrightarrow>
          hd (snd (handleSubmit resp ((fst (loadNextQuestion (Inr data) g s))\<lparr>input := t\<rparr>)))
            = FetchFill (placeholder_id p) (trim t) (showAutoSuggest s)"
    by (simp add: l handleSubmit_def set_pending_current set_pending_flag Let_def case_prod_beta)
  from 1 2 3 4 show ?thesis by blast
qed

theorem loadNextQuestion_activates_first_pending_witness:
  "currentPlaceholder (fst (loadNextQuestion
      (listing 1 0 [ph ''p1'' ''accepted'', ph ''p2'' ''pending'', ph ''p3'' ''pending''])
      (Inl []) initial_chat)) = Some (ph ''p2'' ''pending'')
   \<and> hd (snd (handleSubmit (Inl []) ((fst (loadNextQuestion
      (listing 1 0 [ph ''p1'' ''accepted'', ph ''p2'' ''pending'', ph ''p3'' ''pending''])
      (Inl []) initial_chat))\<lparr>input := str ''Acme''\<rparr>))) = FetchFill (str ''p2'') (str ''Acme'') False"
proof -
  let ?data = "\<lparr>data_filled = 1, data_auto_filled = 0,
     data_total = of_nat (length [ph ''p1'' ''accepted'', ph ''p2'' ''pending'', ph ''p3'' ''pending'']),
     data_placeholders = [ph ''p1'' ''accepted'', ph ''p2'' ''pending'', ph ''p3'' ''pending'']\<rparr>"
  have a: "data_placeholders ?data = [ph ''p1'' ''accepted''] @ ph ''p2'' ''pending'' # [ph ''p3'' ''pending'']"
    by simp
  have b: "\<forall>q\<in>set [ph ''p1'' ''accepted'']. status q \<noteq> str ''pending''"
    by (simp add: ph_def)
  have c: "status (ph ''p2'' ''pending'') = str ''pending''"
    by (simp add: ph_def)
  have d: "trim (str ''Acme'') \<noteq> []"
    by (simp add: trim_def isWhiteSpace_def str_def)
  have e: "trim (str ''Acme'') = str ''Acme''"
    by (simp add: trim_def isWhiteSpace_def str_def)
  show ?thesis
    using loadNextQuestion_activates_first_pending[OF a b c, where t = "str ''Acme''"
        and g = "Inl []" and s = initial_chat and resp = "Inl []"] d e
    by (simp add: listing_def ph_def initial_chat_def)
qed


section \<open>Submitting an answer\<close>

text \<open>
  Claim C7. When the text field holds only white space (or nothing), \<open>handleSubmit\<close> returns
  at once: the state is the one before and no request is sent, so that nothing outside the
  component can validate the input or count it as an attempt. The send button is disabled
  for such an input.
\<close>

theorem blank_input_is_ignored:
  assumes "\<forall>c\<in>set (input s). isWhiteSpace c"
  shows "handleSubmit resp s = (s, []) \<and> send_disabled s"
  using assms by (simp add: handleSubmit_def send_disabled_def trim_blank split: option.splits)

theorem blank_input_is_ignored_witness:
  "handleSubmit (Inr (answer ''accepted'')) (awaiting_answer\<lparr>input := [32, 9, 160, 32]\<rparr>)
     = (awaiting_answer\<lparr>input := [32, 9, 160, 32]\<rparr>, [])
   \<and> send_disabled (awaiting_answer\<lparr>input := [32, 9, 160, 32]\<rparr>)"
proof -
  have "\<forall>c\<in>set (input (awaiting_answer\<lparr>input := [32, 9, 160, 32]\<rparr>)). isWhiteSpace c"
    by (simp add: isWhiteSpace_def)
  from blank_input_is_ignored[OF this] show ?thesis by blast
qed

text \<open>
  Claim C2, amended. \<open>handleSubmit\<close> tells four values of the status apart: \<open>accepted\<close>,
  \<open>rejected\<close>, \<open>offer_auto_suggest\<close> and \<open>auto_filled\<close>. For each of them the response appends
  one bot message. For a response with any other status, or with none, no message is
  appended, nothing is scheduled and the state stays as it is, except that the loading flag
  is cleared, as it is after every response.
\<close>

theorem submit_response_by_status:
  "(data_status data \<in> Some ` {str ''accepted'', str ''rejected'', str ''offer_auto_suggest'',
        str ''auto_filled''}
      \<longrightarrow> (\<exists>t. messages (fst (submit_response (Inr data) s)) = messages s @ [bot t]))
   \<and> (data_status data \<notin> Some ` {str ''accepted'', str ''rejected'', str ''offer_auto_suggest'',
        str ''auto_filled''}
      \<longrightarrow> submit_response (Inr data) s = (s\<lparr>loading := False\<rparr>, []))"
  using on_status_known[of data s] on_status_other[of data s]
  by (auto simp: submit_response_def case_prod_beta)

theorem submit_response_by_status_witness:
  "(\<exists>t. messages (fst (submit_response (Inr (answer ''rejected'')) awaiting_answer))
        = messages awaiting_answer @ [bot t])
   \<and> submit_response (Inr (answer ''error'')) awaiting_answer
        = (awaiting_answer\<lparr>loading := False\<rparr>, [])"
proof -
  have a: "data_status (answer ''rejected'') \<in> Some ` {str ''accepted'', str ''rejected'',
      str ''offer_auto_suggest'', str ''auto_filled''}"
    by (simp add: answer_def)
  have b: "data_status (answer ''error'') \<notin> Some ` {str ''accepted'', str ''rejected'',
      str ''offer_auto_suggest'', str ''auto_filled''}"
    by (simp add: answer_def)
  show ?thesis
    using submit_response_by_status[of "answer ''rejected''" awaiting_answer]
      submit_response_by_status[of "answer ''error''" awaiting_answer] a b
    by blast
qed

text \<open>
  The claim as it was stated fails for the loading flag: while the answer is awaited the
  flag is set, and a response with an unknown status clears it.
\<close>

theorem unknown_status_changes_loading:
  "loading awaiting_answer
   \<and> \<not> loading (fst (submit_response (Inr (answer ''error'')) awaiting_answer))"
  by (simp add: awaiting_answer_def initial_chat_def submit_response_def on_status_def answer_def)


section \<open>Choosing the file\<close>

text \<open>
  Claim C10. A file whose name does not end with \<open>.docx\<close> leaves the chosen file as it was
  and sets an error message, for the file dialog and for a drop alike; whenever one of the two
  handlers changes the chosen file, the new file has a name that ends with \<open>.docx\<close>; and
  \<open>handleUpload\<close> with no chosen file changes nothing and sends no request.
\<close>

theorem upload_accepts_docx_only:
  "((\<nexists>pre. file_name f = pre @ str ''.docx'') \<longrightarrow>
      file_js (handleFileChange (f # fs) s) = file_js s
      \<and> upload_error (handleFileChange (f # fs) s) = str ''Please select a .docx file''
      \<and> file_js (handleDrop (f # fs) s) = file_js s
      \<and> upload_error (handleDrop (f # fs) s) = str ''Please drop a .docx file'')
   \<and> (file_js (handleFileChange fs s) \<noteq> file_js s \<longrightarrow>
        (\<exists>f' pre. file_js (handleFileChange fs s) = Some f' \<and> file_name f' = pre @ str ''.docx''))
   \<and> (file_js (handleDrop fs s) \<noteq> file_js s \<longrightarrow>
        (\<exists>f' pre. file_js (handleDrop fs s) = Some f' \<and> file_name f' = pre @ str ''.docx''))
   \<and> (file_js s = None \<longrightarrow> handleUpload resp s = (s, []))"
  by (auto simp: handleFileChange_def handleDrop_def handleUpload_def endsWith_iff Let_def
      split: list.splits)

theorem upload_accepts_docx_only_witness:
  "file_js (handleFileChange [\<lparr>file_name = str ''notes.txt'', file_size = 10\<rparr>]
      \<lparr>file_js = None, uploading = False, upload_error = [], dragOver = False\<rparr>) = None
   \<and> upload_error (handleDrop [\<lparr>file_name = str ''notes.txt'', file_size = 10\<rparr>]
      \<lparr>file_js = None, uploading = False, upload_error = [], dragOver = False\<rparr>)
        = str ''Please drop a .docx file''
   \<and> (\<exists>f' pre. file_js (handleFileChange [\<lparr>file_name = str ''deed.docx'', file_size = 10\<rparr>]
      \<lparr>file_js = None, uploading = False, upload_error = [], dragOver = False\<rparr>) = Some f'
        \<and> file_name f' = pre @ str ''.docx'')
   \<and> (\<exists>f' pre. file_js (handleDrop [\<lparr>file_name = str ''deed.docx'', file_size = 10\<rparr>]
      \<lparr>file_js = None, uploading = False, upload_error = [], dragOver = False\<rparr>) = Some f'
        \<and> file_name f' = pre @ str ''.docx'')
   \<and> handleUpload (Inl []) \<lparr>file_js = None, uploading = False, upload_error = [], dragOver = False\<rparr>
        = (\<lparr>file_js = None, uploading = False, upload_error = [], dragOver = False\<rparr>, [])"
proof -
  let ?s = "\<lparr>file_js = None, uploading = False, upload_error = [], dragOver = False\<rparr>"
  let ?txt = "\<lparr>file_name = str ''notes.txt'', file_size = 10\<rparr>"
  let ?docx = "\<lparr>file_name = str ''deed.docx'', file_size = 10\<rparr>"
  have "\<not> endsWith (file_name ?txt) (str ''.docx'')"
    by (simp add: endsWith_def str_def)
  then have a: "\<nexists>pre. file_name ?txt = pre @ str ''.docx''"
    using endsWith_iff by blast
  have b: "file_js (handleFileChange [?docx] ?s) \<noteq> file_js ?s"
    by (simp add: handleFileChange_def endsWith_def str_def)
  have c: "file_js (handleDrop [?docx] ?s) \<noteq> file_js ?s"
    by (simp add: handleDrop_def endsWith_def str_def)
  have d: "file_js ?s = None"
    by simp
  show ?thesis
    using upload_accepts_docx_only[where f = ?txt and fs = "[]" and s = ?s and resp = "Inl []"]
      upload_accepts_docx_only[where f = ?txt and fs = "[?docx]" and s = ?s and resp = "Inl []"]
      a b c d
    by simp
qed

section \<open>Rounding to a double\<close>


lemma bitlen_bounds: "0 < n \<Longrightarrow> 2 ^ (bitlen n - 1) \<le> n \<and> n < 2 ^ bitlen n"
proof (induction n rule: bitlen.induct)
  case (1 n)
  show ?case
  proof (cases "n div 2 = 0")
    case True
    with 1 have "n = 1" by (simp add: div_eq_0_iff)
    moreover have "bitlen (Suc 0) = Suc 0"
      by (simp add: bitlen.simps[of "Suc 0"] bitlen.simps[of 0])
    ultimately show ?thesis by simp
  next
    case False
    then have pos: "0 < n div 2" by simp
    from 1 pos have ih: "2 ^ (bitlen (n div 2) - 1) \<le> n div 2" "n div 2 < 2 ^ bitlen (n div 2)"
      by auto
    have bl: "bitlen n = Suc (bitlen (n div 2))" using 1 by (simp add: bitlen.simps[of n])
    have b1: "0 < bitlen (n div 2)" using pos by (simp add: bitlen.simps[of "n div 2"])
    have "2 ^ (bitlen n - 1) = 2 * 2 ^ (bitlen (n div 2) - 1)"
      using bl b1 by (cases "bitlen (n div 2)") auto
    also have "\<dots> \<le> 2 * (n div 2)" using ih(1) by simp
    also have "\<dots> \<le> n" by simp
    finally have lo: "2 ^ (bitlen n - 1) \<le> n" .
    have "n < 2 * (n div 2) + 2" by presburger
    also have "\<dots> \<le> 2 * 2 ^ bitlen (n div 2)" using ih(2) by simp
    finally have hi: "n < 2 ^ bitlen n" using bl by simp
    from lo hi show ?thesis by simp
  qed
qed

lemma round_half_even_near:
  assumes "0 < d"
  shows "\<bar>(of_nat (round_half_even n d) :: rat) - of_nat n / of_nat d\<bar> \<le> 1 / 2"
proof -
  let ?q = "n div d" and ?r = "n mod d"
  have n: "(of_nat n :: rat) = of_nat ?q * of_nat d + of_nat ?r"
    by (metis div_mult_mod_eq of_nat_add of_nat_mult)
  have d0: "(of_nat d :: rat) > 0" using assms by simp
  have frac: "(of_nat n :: rat) / of_nat d = of_nat ?q + of_nat ?r / of_nat d"
    using d0 by (simp add: n field_simps)
  have rlt: "(of_nat ?r :: rat) / of_nat d < 1" using assms d0 by (simp add: field_simps)
  have r0: "0 \<le> (of_nat ?r :: rat) / of_nat d" by simp
  consider "2 * ?r < d" | "d < 2 * ?r" | "2 * ?r = d" by linarith
  then show ?thesis
  proof cases
    case 1
    then have "(of_nat (2 * ?r) :: rat) < of_nat d" by (simp only: of_nat_less_iff)
    then have "(of_nat ?r :: rat) / of_nat d < 1 / 2" using d0 by (simp add: field_simps)
    moreover have "round_half_even n d = ?q" using 1 by (simp add: round_half_even_def)
    ultimately show ?thesis using r0 by (simp add: frac)
  next
    case 2
    then have "(of_nat d :: rat) < of_nat (2 * ?r)" by (simp only: of_nat_less_iff)
    then have "(of_nat ?r :: rat) / of_nat d > 1 / 2" using d0 by (simp add: field_simps)
    moreover have "round_half_even n d = ?q + 1" using 2 by (simp add: round_half_even_def)
    ultimately show ?thesis using rlt by (simp add: frac)
  next
    case 3
    then have "(of_nat (2 * ?r) :: rat) = of_nat d" by (simp only: of_nat_eq_iff)
    then have h: "(of_nat ?r :: rat) / of_nat d = 1 / 2" using d0 by (simp add: field_simps)
    have "round_half_even n d = ?q \<or> round_half_even n d = ?q + 1"
      using 3 by (auto simp: round_half_even_def Let_def)
    then show ?thesis
    proof
      assume "round_half_even n d = ?q"
      then have "(of_nat (round_half_even n d) :: rat) - of_nat n / of_nat d = - (1 / 2)"
        by (simp add: frac h)
      then show ?thesis by (simp only:)
    next
      assume "round_half_even n d = ?q + 1"
      then have "(of_nat (round_half_even n d) :: rat) - of_nat n / of_nat d = 1 / 2"
        by (simp add: frac h)
      then show ?thesis by (simp only:)
    qed
  qed
qed

lemma pow2_ratio: "(2::rat) ^ nat (- s) / 2 ^ nat s = power_int 2 (- s)"
proof (cases "0 \<le> s")
  case True
  then show ?thesis by (simp add: power_int_def field_simps)
next
  case False
  then show ?thesis by (simp add: power_int_def)
qed

lemma pow2_ratio': "(2::rat) ^ nat s / 2 ^ nat (- s) = power_int 2 s"
  using pow2_ratio[of "- s"] by simp

lemma exponent_lower:
  assumes "0 < a" "0 < b"
  defines "k \<equiv> int (bitlen a) - int (bitlen b)"
  defines "e \<equiv> (if a * 2 ^ nat (- k) < b * 2 ^ nat k then k - 1 else k)"
  shows "power_int (2::rat) e \<le> of_nat a / of_nat b"
proof (cases "a * 2 ^ nat (- k) < b * 2 ^ nat k")
  case False
  then have "b * 2 ^ nat k \<le> a * 2 ^ nat (- k)" by simp
  then have "(of_nat (b * 2 ^ nat k) :: rat) \<le> of_nat (a * 2 ^ nat (- k))"
    by (simp only: of_nat_le_iff)
  then have "(of_nat b :: rat) * 2 ^ nat k \<le> of_nat a * 2 ^ nat (- k)" by simp
  then have "(2::rat) ^ nat k / 2 ^ nat (- k) \<le> of_nat a / of_nat b"
    using assms(2) by (simp add: field_simps)
  then show ?thesis using False by (simp add: e_def pow2_ratio')
next
  case True
  have la: "2 ^ (bitlen a - 1) \<le> a" using bitlen_bounds[OF assms(1)] by simp
  have lb: "b < 2 ^ bitlen b" using bitlen_bounds[OF assms(2)] by simp
  have pa: "0 < bitlen a" using assms(1) by (simp add: bitlen.simps[of a])
  have 1: "(2::rat) ^ (bitlen a - 1) \<le> of_nat a"
    using la by (metis of_nat_le_iff of_nat_numeral of_nat_power)
  have 2: "(of_nat b :: rat) \<le> 2 ^ bitlen b"
    using lb by (metis less_imp_le of_nat_le_iff of_nat_numeral of_nat_power)
  have b0: "(0::rat) < of_nat b" using assms(2) by simp
  have "power_int (2::rat) (k - 1) = 2 ^ (bitlen a - 1) / 2 ^ bitlen b"
  proof -
    have "k - 1 = int (bitlen a - 1) - int (bitlen b)" using pa by (simp add: k_def)
    then show ?thesis by (simp add: power_int_diff)
  qed
  also have "\<dots> \<le> of_nat a / 2 ^ bitlen b" using 1 by (simp add: divide_right_mono)
  also have "\<dots> \<le> of_nat a / of_nat b" using 2 b0 by (simp add: frac_le)
  finally show ?thesis using True by (simp add: e_def)
qed

lemma round_double_error:
  assumes "0 < a" "0 < b"
  shows "\<bar>double_value (round_double a b) - of_nat a / of_nat b\<bar>
           \<le> (of_nat a / of_nat b) / 2 ^ 53"
proof -
  define k where "k = int (bitlen a) - int (bitlen b)"
  define e where "e = (if a * 2 ^ nat (- k) < b * 2 ^ nat k then k - 1 else k)"
  define s where "s = e - 52"
  define n where "n = a * 2 ^ nat (- s)"
  define d where "d = b * 2 ^ nat s"
  define m where "m = round_half_even n d"
  let ?q = "(of_nat a :: rat) / of_nat b"
  have rd: "round_double a b = (m, s)"
    using assms(1) by (simp add: round_double_def Let_def k_def e_def s_def n_def d_def m_def)
  have dpos: "0 < d" using assms(2) by (simp add: d_def)
  have nd: "(of_nat n :: rat) / of_nat d = ?q * power_int 2 (- s)"
  proof -
    have "(of_nat n :: rat) / of_nat d = ?q * (2 ^ nat (- s) / 2 ^ nat s)"
      by (simp add: n_def d_def)
    then show ?thesis by (simp only: pow2_ratio)
  qed
  have p: "(0::rat) < power_int 2 s" by simp
  have lo: "power_int (2::rat) e \<le> ?q"
    unfolding e_def k_def by (rule exponent_lower[OF assms])
  have "double_value (round_double a b) - ?q
      = power_int 2 s * (of_nat m - of_nat n / of_nat d)"
    by (simp add: rd double_value_def nd algebra_simps power_int_minus)
  then have "\<bar>double_value (round_double a b) - ?q\<bar>
      = power_int 2 s * \<bar>of_nat m - of_nat n / of_nat d\<bar>"
    using p by (simp add: abs_mult)
  also have "\<dots> \<le> power_int 2 s * (1 / 2)"
    using round_half_even_near[OF dpos, of n] p unfolding m_def
    by (intro mult_left_mono) auto
  also have "\<dots> = power_int 2 e / 2 ^ 53"
    by (simp add: s_def power_int_diff)
  also have "\<dots> \<le> ?q / 2 ^ 53" using lo by (simp add: divide_right_mono)
  finally show ?thesis .
qed

lemma round_double_zero: "double_value (round_double 0 b) = 0"
  by (simp add: round_double_def double_value_def)

text \<open>The rounded quotient times 100, rounded again.\<close>

lemma percent_error:
  assumes "0 < a" "0 < b"
  shows "\<bar>double_value (times_100 (round_double a b)) - of_nat a / of_nat b * 100\<bar>
           \<le> of_nat a / of_nat b * 100 * (1 / 2 ^ 52 + 1 / 2 ^ 106)"
proof -
  let ?q = "(of_nat a :: rat) / of_nat b"
  let ?x = "double_value (round_double a b)"
  obtain m s where ms: "round_double a b = (m, s)" by (cases "round_double a b")
  have q0: "0 < ?q" using assms by simp
  have e1: "\<bar>?x - ?q\<bar> \<le> ?q / 2 ^ 53" by (rule round_double_error[OF assms])
  then have xlo: "?q - ?q / 2 ^ 53 \<le> ?x" and xhi: "?x \<le> ?q + ?q / 2 ^ 53" by (auto simp: abs_le_iff)
  have "?q / 2 ^ 53 < ?q" using q0 by (simp add: field_simps)
  then have x0: "0 < ?x" using xlo by linarith
  have xv: "?x = of_nat m * power_int 2 s" by (simp add: ms double_value_def)
  have m0: "0 < m"
  proof (rule ccontr)
    assume "\<not> 0 < m"
    then have "?x = 0" by (simp add: xv)
    then show False using x0 by simp
  qed
  let ?a' = "100 * m * 2 ^ nat s" and ?b' = "2 ^ nat (- s)"
  have a'0: "0 < ?a'" using m0 by simp
  have b'0: "0 < (?b' :: nat)" by simp
  have frac: "(of_nat ?a' :: rat) / of_nat ?b' = ?x * 100"
  proof -
    have "(of_nat ?a' :: rat) / of_nat ?b' = 100 * of_nat m * (2 ^ nat s / 2 ^ nat (- s))"
      by simp
    then have "(of_nat ?a' :: rat) / of_nat ?b' = 100 * of_nat m * power_int 2 s"
      by (simp only: pow2_ratio')
    then show ?thesis by (simp add: xv)
  qed
  have t: "times_100 (round_double a b) = round_double ?a' ?b'"
    by (simp add: times_100_def ms)
  let ?y = "double_value (times_100 (round_double a b))"
  have e2: "\<bar>?y - ?x * 100\<bar> \<le> ?x * 100 / 2 ^ 53"
    using round_double_error[OF a'0 b'0] by (simp only: t frac)
  have "\<bar>?y - ?q * 100\<bar> \<le> \<bar>?y - ?x * 100\<bar> + \<bar>?x * 100 - ?q * 100\<bar>"
    using abs_triangle_ineq[of "?y - ?x * 100" "?x * 100 - ?q * 100"] by simp
  also have "\<bar>?x * 100 - ?q * 100\<bar> = 100 * \<bar>?x - ?q\<bar>"
    using abs_mult[of "?x - ?q" 100] by (simp add: algebra_simps)
  also have "\<bar>?y - ?x * 100\<bar> + 100 * \<bar>?x - ?q\<bar> \<le> ?x * 100 / 2 ^ 53 + 100 * (?q / 2 ^ 53)"
    using e1 e2 by (intro add_mono mult_left_mono) auto
  also have "\<dots> \<le> (?q + ?q / 2 ^ 53) * 100 / 2 ^ 53 + 100 * (?q / 2 ^ 53)"
    using xhi by (simp add: divide_right_mono)
  also have "\<dots> = ?q * 100 * (1 / 2 ^ 52 + 1 / 2 ^ 106)" by (simp add: field_simps)
  finally show ?thesis .
qed


text \<open>Two percentages, computed.\<close>

lemma unat_count [simp]: "unat (numeral n :: count) = numeral n mod 2 ^ 52"
  by (simp add: unsigned_numeral take_bit_eq_mod)

lemma rd_8_10: "round_double 8 10 = (7205759403792794, -53)"
  by (simp add: round_double_def round_half_even_def Let_def bitlen.simps)

lemma t100_80: "times_100 (7205759403792794, -53) = (5629499534213120, -46)"
  by (simp add: times_100_def round_double_def round_half_even_def Let_def bitlen.simps)

lemma dv_80: "double_value (5629499534213120, -46) = 80"
  by (simp add: double_value_def power_int_minus)

lemma rd_11_20: "round_double 11 20 = (4953959590107546, -53)"
  by (simp add: round_double_def round_half_even_def Let_def bitlen.simps)

lemma t100_55: "times_100 (4953959590107546, -53) = (7740561859543041, -47)"
  by (simp add: times_100_def round_double_def round_half_even_def Let_def bitlen.simps)

lemma dv_55: "double_value (7740561859543041, -47) = 55 + 1 / 2 ^ 47"
  by (simp add: double_value_def power_int_minus)

section \<open>The progress shown\<close>

text \<open>
  Claim C6, amended. After a placeholders response the header shows \<open>filled + auto_filled\<close> as
  the count of completed placeholders. When \<open>total\<close> is positive, the width of the bar in
  percent is the quotient \<open>(filled + auto_filled) / total\<close> rounded to the nearest double,
  times 100 and rounded again; it differs from the exact value of
  \<open>(filled + auto_filled) / total * 100\<close> by at most the fraction \<open>2^-52 + 2^-106\<close> of that
  value. When \<open>total\<close> is \<open>0\<close> the width is \<open>0\<close>.
\<close>

theorem progress_display:
  "displayed_count (fst (loadNextQuestion (Inr data) g s))
     = unat (data_filled data) + unat (data_auto_filled data)
   \<and> (0 < unat (data_total data) \<longrightarrow>
        progressPercent (fst (loadNextQuestion (Inr data) g s)) =
          double_value (times_100 (round_double (unat (data_filled data) + unat (data_auto_filled data))
                                                (unat (data_total data))))
        \<and> \<bar>progressPercent (fst (loadNextQuestion (Inr data) g s))
             - of_nat (unat (data_filled data) + unat (data_auto_filled data))
                 / of_nat (unat (data_total data)) * 100\<bar>
            \<le> of_nat (unat (data_filled data) + unat (data_auto_filled data))
                 / of_nat (unat (data_total data)) * 100 * (1 / 2 ^ 52 + 1 / 2 ^ 106))
   \<and> (unat (data_total data) = 0 \<longrightarrow> progressPercent (fst (loadNextQuestion (Inr data) g s)) = 0)"
proof -
  let ?s' = "fst (loadNextQuestion (Inr data) g s)"
  let ?a = "unat (data_filled data) + unat (data_auto_filled data)"
  let ?b = "unat (data_total data)"
  have f: "progress_filled ?s' = ?a" by (rule loadNextQuestion_progress)
  have t: "progress_total ?s' = ?b" by (rule loadNextQuestion_progress)
  have 1: "displayed_count ?s' = ?a" by (simp add: displayed_count_def f)
  have 2: "progressPercent ?s' = double_value (times_100 (round_double ?a ?b))" if "0 < ?b"
    using that by (simp add: progressPercent_def f t)
  have 3: "\<bar>progressPercent ?s' - of_nat ?a / of_nat ?b * 100\<bar>
             \<le> of_nat ?a / of_nat ?b * 100 * (1 / 2 ^ 52 + 1 / 2 ^ 106)" if b: "0 < ?b"
  proof (cases "?a = 0")
    case True
    have "times_100 (round_double 0 ?b) = (0, 0)"
      by (simp add: times_100_def round_double_def)
    then have "progressPercent ?s' = 0"
      using 2[OF b] True by (simp add: double_value_def)
    then show ?thesis using True by simp
  next
    case False
    then have "0 < ?a" by simp
    from percent_error[OF this b] show ?thesis by (simp only: 2[OF b])
  qed
  have 4: "progressPercent ?s' = 0" if "?b = 0"
    using that by (simp add: progressPercent_def t)
  from 1 2 3 4 show ?thesis by blast
qed

theorem progress_display_witness:
  "displayed_count (fst (loadNextQuestion
      (Inr \<lparr>data_filled = 7, data_auto_filled = 1, data_total = 10, data_placeholders = []\<rparr>)
      (Inl []) initial_chat)) = 8
   \<and> progressPercent (fst (loadNextQuestion
      (Inr \<lparr>data_filled = 7, data_auto_filled = 1, data_total = 10, data_placeholders = []\<rparr>)
      (Inl []) initial_chat)) = 80
   \<and> progressPercent (fst (loadNextQuestion
      (Inr \<lparr>data_filled = 0, data_auto_filled = 0, data_total = 0, data_placeholders = []\<rparr>)
      (Inl []) initial_chat)) = 0"
  using progress_display[of "\<lparr>data_filled = 7, data_auto_filled = 1, data_total = 10,
      data_placeholders = []\<rparr>" "Inl []" initial_chat]
    progress_display[of "\<lparr>data_filled = 0, data_auto_filled = 0, data_total = 0,
      data_placeholders = []\<rparr>" "Inl []" initial_chat]
  by (simp add: rd_8_10 t100_80 dv_80)

text \<open>
  The claim as it was stated fails where the rounding shows: for 10 filled and 1 auto-filled
  placeholders of 20 the exact percentage is 55, and the component computes the double next
  above it (\<open>55.00000000000001\<close>).
\<close>

theorem percentage_is_rounded:
  "progressPercent (fst (loadNextQuestion
      (Inr \<lparr>data_filled = 10, data_auto_filled = 1, data_total = 20, data_placeholders = []\<rparr>)
      (Inl []) initial_chat)) = 55 + 1 / 2 ^ 47
   \<and> (of_nat (unat (10 :: count) + unat (1 :: count)) :: rat) / of_nat (unat (20 :: count)) * 100 = 55"
  by (simp add: progressPercent_def loadNextQuestion_progress rd_11_20 t100_55 dv_55)


section \<open>Sessions: how the events act on the state\<close>

lemma run_snoc: "run (es @ [e]) = fire (run es) e"
  by (simp add: run_def)

lemma before_snoc: "i \<le> length es \<Longrightarrow> before (es @ [e]) i = before es i"
  by (simp add: before_def)

lemma before_length: "before es (length es) = run es"
  by (simp add: before_def)

lemma before_take: "j \<le> i \<Longrightarrow> before (take i es) j = before es j"
  by (simp add: before_def min_def)

lemma perform_fields:
  "chat_state (perform s a) = chat_state s"
  "sent (perform s a) = sent s @ [a]"
  "in_flight (perform s a) = in_flight s"
  "pending_loads (perform s a) = pending_loads s + (if a = SetTimeout_loadNextQuestion then 1 else 0)"
  "app_step (perform s a) = (if is_OnComplete a then Complete_step else app_step s)"
  by (cases a; simp add: handleChatComplete_def)+

lemma foldl_perform_chat: "chat_state (foldl perform s effs) = chat_state s"
  by (induction effs arbitrary: s) (simp_all add: perform_fields)

lemma foldl_perform_sent: "sent (foldl perform s effs) = sent s @ effs"
  by (induction effs arbitrary: s) (simp_all add: perform_fields)

lemma foldl_perform_flight: "in_flight (foldl perform s effs) = in_flight s"
  by (induction effs arbitrary: s) (simp_all add: perform_fields)


lemma foldl_perform_step:
  "app_step (foldl perform s effs) =
     (if list_ex is_OnComplete effs then Complete_step else app_step s)"
  by (induction effs arbitrary: s) (simp_all add: perform_fields)

lemma chat_fire:
  "chat_state (fire s e) = (if app_step s = Chat_step then fst (react e s) else chat_state s)"
  by (simp add: fire_def foldl_perform_chat)

lemma sent_fire: "sent (fire s e) = sent s @ emitted e s"
  by (simp add: fire_def foldl_perform_sent)

lemma flight_fire:
  "in_flight (fire s e) = remaining e s @ concat (map (awaits e) (emitted e s))"
  by (simp add: fire_def foldl_perform_flight)


lemma step_fire:
  "app_step (fire s e) = (if list_ex is_OnComplete (emitted e s) then Complete_step else app_step s)"
  by (simp add: fire_def foldl_perform_step)

text \<open>Each handler, given as one function, is its parts run one after the other.\<close>

lemma generateFinalDoc_parts:
  "generateFinalDoc g s =
     (fst (generate_response g (fst (generate_start s))),
      snd (generate_start s) @ snd (generate_response g (fst (generate_start s))))"
  by (simp add: generateFinalDoc_def generate_start_def generate_response_def Let_def
      split: sum.splits)

lemma handleSubmit_parts:
  "handleSubmit resp s =
     (if snd (submit_start s) = [] then (s, [])
      else (fst (submit_response resp (fst (submit_start s))),
            snd (submit_start s) @ snd (submit_response resp (fst (submit_start s)))))"
  by (simp add: handleSubmit_def submit_start_def Let_def case_prod_beta split: option.splits)

lemma handleAcceptAutoSuggest_parts:
  "handleAcceptAutoSuggest resp s =
     (if snd (accept_start s) = [] then accept_start s
      else (fst (accept_response resp (fst (accept_start s))),
            snd (accept_start s) @ snd (accept_response resp (fst (accept_start s)))))"
  by (simp add: handleAcceptAutoSuggest_def accept_start_def accept_response_def Let_def
      split: option.splits sum.splits)

lemma loadNextQuestion_parts:
  "loadNextQuestion r g s =
     (let (s1, e1) = load_start s; (s2, e2) = load_response r s1
      in if e2 = [] then (s2, e1)
         else (fst (generate_response g s2), e1 @ e2 @ snd (generate_response g s2)))"
  by (auto simp: loadNextQuestion_def load_start_def load_response_def generate_start_def
      generate_response_def generateFinalDoc_def Let_def split: sum.splits option.splits)

text \<open>What the parts emit.\<close>

lemma load_response_effects:
  "snd (load_response r c) =
     (case r of Inl err \<Rightarrow> []
      | Inr data \<Rightarrow>
          (case find (\<lambda>p. status p = str ''pending'') (data_placeholders data) of
             Some p \<Rightarrow> [] | None \<Rightarrow> [FetchGenerate]))"
  by (simp add: load_response_def generate_start_def Let_def split: sum.splits option.splits)

lemma generate_response_effects:
  "snd (generate_response g c) =
     (case g of Inl err \<Rightarrow> []
      | Inr gd \<Rightarrow> if gen_status gd = Some (str ''ok'') then [OnComplete (final_document gd)] else [])"
  by (simp add: generate_response_def split: sum.splits)

lemma on_status_effects:
  "snd (on_status data c) =
     (if data_status data = Some (str ''accepted'') \<or> data_status data = Some (str ''auto_filled'')
      then [SetTimeout_loadNextQuestion] else [])"
  by (simp add: on_status_def)

lemma submit_response_effects:
  "snd (submit_response r c) =
     (case r of Inl err \<Rightarrow> []
      | Inr data \<Rightarrow>
          if data_status data = Some (str ''accepted'') \<or> data_status data = Some (str ''auto_filled'')
          then [SetTimeout_loadNextQuestion] else [])"
  by (simp add: submit_response_def case_prod_beta on_status_effects split: sum.splits)

lemma accept_response_effects:
  "snd (accept_response r c) =
     (case r of Inl err \<Rightarrow> []
      | Inr data \<Rightarrow>
          if data_status data = Some (str ''auto_filled'') then [SetTimeout_loadNextQuestion] else [])"
  by (simp add: accept_response_def split: sum.splits)

lemma submit_start_effects:
  "snd (submit_start c) =
     (case currentPlaceholder c of None \<Rightarrow> []
      | Some cp \<Rightarrow> if trim (input c) = [] then []
                   else [FetchFill (placeholder_id cp) (trim (input c)) (showAutoSuggest c)])"
  by (simp add: submit_start_def split: option.splits)

lemma accept_start_effects:
  "snd (accept_start c) =
     (case currentPlaceholder c of None \<Rightarrow> []
      | Some cp \<Rightarrow> [FetchFill (placeholder_id cp) (str ''auto'') True])"
  by (simp add: accept_start_def Let_def split: option.splits)

lemma resume_effects:
  "resume q r c = Some res \<Longrightarrow>
     (q = PlaceholdersRequest \<and> (snd res = [] \<or> snd res = [FetchGenerate]))
   \<or> (q = GenerateRequest \<and> (snd res = [] \<or> (\<exists>n. snd res = [OnComplete n])))
   \<or> ((\<exists>pid. q = SubmitRequest pid \<or> q = AcceptRequest pid)
        \<and> (snd res = [] \<or> snd res = [SetTimeout_loadNextQuestion]))"
  by (cases q; cases r)
     (auto simp: load_response_effects generate_response_effects submit_response_effects
        accept_response_effects split: sum.splits option.splits)

lemma emitted_reply:
  "emitted (Reply n r) s =
     (case answered (Reply n r) s of None \<Rightarrow> []
      | Some q \<Rightarrow> snd (the (resume q r (chat_state s))))"
  by (auto simp: emitted_def split: option.splits)

lemma emitted_cases:
  "emitted Timer s = (if pending_loads s = 0 then [] else [FetchPlaceholders])"
  "emitted (Type t) s = []"
  "emitted Send s =
     (if app_step s = Chat_step \<and> \<not> send_disabled (chat_state s)
      then snd (submit_start (chat_state s)) else [])"
  "emitted Accept s =
     (if app_step s = Chat_step \<and> showAutoSuggest (chat_state s)
      then snd (accept_start (chat_state s)) else [])"
  "emitted Skip s = []"
  by (simp_all add: emitted_def load_start_def)

text \<open>A request for an answer is sent by the two handlers only, to the active placeholder.\<close>

lemma fill_request_origin:
  assumes "FetchFill pid u c \<in> set (emitted e s)"
  shows "app_step s = Chat_step \<and> active_id s = Some pid
     \<and> (e = Send \<and> c = showAutoSuggest (chat_state s) \<and> \<not> send_disabled (chat_state s)
        \<or> e = Accept \<and> c \<and> showAutoSuggest (chat_state s))"
proof (cases e)
  case Timer
  then show ?thesis using assms by (simp add: emitted_cases split: if_splits)
next
  case (Type t)
  then show ?thesis using assms by (simp add: emitted_cases)
next
  case Send
  then show ?thesis using assms
    by (cases "currentPlaceholder (chat_state s)")
       (auto simp: emitted_cases submit_start_effects active_id_def split: if_splits)
next
  case Accept
  then show ?thesis using assms
    by (cases "currentPlaceholder (chat_state s)")
       (auto simp: emitted_cases accept_start_effects active_id_def split: if_splits)
next
  case Skip
  then show ?thesis using assms by (simp add: emitted_cases)
next
  case (Reply n r)
  show ?thesis
  proof (cases "answered (Reply n r) s")
    case None
    then show ?thesis using assms Reply by (simp add: emitted_reply)
  next
    case (Some q)
    then obtain res where res: "resume q r (chat_state s) = Some res"
      by (auto split: if_splits)
    from resume_effects[OF res] assms Reply Some res show ?thesis
      by (auto simp: emitted_reply)
  qed
qed

text \<open>The flag and the active placeholder under the parts.\<close>

lemma on_status_flag:
  "showAutoSuggest (fst (on_status data s)) \<longleftrightarrow>
     data_status data = Some (str ''offer_auto_suggest'')
     \<or> showAutoSuggest s \<and> data_status data \<noteq> Some (str ''accepted'')
        \<and> data_status data \<noteq> Some (str ''auto_filled'')"
  by (auto simp: on_status_def)

lemma submit_response_flag:
  "showAutoSuggest (fst (submit_response r s)) \<Longrightarrow>
     showAutoSuggest s \<or> (\<exists>data. r = Inr data \<and> data_status data = Some (str ''offer_auto_suggest''))"
  by (auto simp: submit_response_def case_prod_beta on_status_flag split: sum.splits)

lemma accept_response_flag: "showAutoSuggest (fst (accept_response r s)) \<Longrightarrow> showAutoSuggest s"
  by (auto simp: accept_response_def split: sum.splits if_splits)

lemma load_response_flag: "showAutoSuggest (fst (load_response r s)) = showAutoSuggest s"
  by (simp add: load_response_def generate_start_def set_pending_flag Let_def
      split: sum.splits option.splits)

lemma generate_response_flag: "showAutoSuggest (fst (generate_response g s)) = showAutoSuggest s"
  by (simp add: generate_response_def split: sum.splits)

lemma flag_raised:
  assumes "showAutoSuggest (chat_state (fire s e))" "\<not> showAutoSuggest (chat_state s)"
  shows "\<exists>pid. offered pid e s"
proof -
  have st: "app_step s = Chat_step" and fl: "showAutoSuggest (fst (react e s))"
    using assms by (auto simp: chat_fire split: if_splits)
  show ?thesis
  proof (cases e)
    case (Reply n r)
    have n: "n < length (in_flight s)"
      using fl assms(2) Reply by (auto split: if_splits)
    then obtain res where res: "resume (in_flight s ! n) r (chat_state s) = Some res"
      using fl assms(2) Reply by (auto split: option.splits)
    then have fl': "showAutoSuggest (fst res)" using fl Reply n by simp
    show ?thesis
    proof (cases "in_flight s ! n")
      case PlaceholdersRequest
      then show ?thesis using res fl' assms(2) by (cases r) (auto simp: load_response_flag)
    next
      case (SubmitRequest pid)
      then obtain x where x: "r = FillReply x" "res = submit_response x (chat_state s)"
        using res by (cases r) auto
      from submit_response_flag[of x "chat_state s"] fl' x assms(2)
      obtain data where "x = Inr data" "data_status data = Some (str ''offer_auto_suggest'')"
        by auto
      then show ?thesis using Reply n x SubmitRequest
        by (auto simp: offered_def)
    next
      case (AcceptRequest pid)
      then show ?thesis using res fl' assms(2)
        by (cases r) (auto dest: accept_response_flag)
    next
      case GenerateRequest
      then show ?thesis using res fl' assms(2) by (cases r) (auto simp: generate_response_flag)
    qed
  next
    case Timer
    then show ?thesis using fl assms(2) by (auto simp: load_start_def split: if_splits)
  next
    case (Type t)
    then show ?thesis using fl assms(2) by (auto split: if_splits)
  next
    case Send
    then show ?thesis using fl assms(2)
      by (auto simp: submit_start_def split: if_splits option.splits)
  next
    case Accept
    then show ?thesis using fl assms(2) by (auto split: if_splits)
  next
    case Skip
    then show ?thesis using fl assms(2) by (auto split: if_splits)
  qed
qed

lemma flag_kept:
  assumes "showAutoSuggest (chat_state (fire s e))"
  shows "\<not> declined e s"
  using assms by (auto simp: declined_def chat_fire handleSkipAutoSuggest_def)


text \<open>The sessions before the events of a trace and their effects, computed in one pass.\<close>

lemma trail_nth: "i < length es \<Longrightarrow> trail es s ! i = foldl fire s (take i es)"
proof (induction es arbitrary: s i)
  case Nil
  then show ?case by simp
next
  case (Cons e es)
  then show ?case by (cases i) simp_all
qed

lemma effects_log_nth:
  "i < length es \<Longrightarrow> effects_log es s ! i = emitted (es ! i) (foldl fire s (take i es))"
proof (induction es arbitrary: s i)
  case Nil
  then show ?case by simp
next
  case (Cons e es)
  then show ?case by (cases i) simp_all
qed

lemma before_trail: "i < length es \<Longrightarrow> before es i = trail es initial_session ! i"
  by (simp add: before_def run_def trail_nth)

lemma emitted_log:
  "i < length es \<Longrightarrow> emitted (es ! i) (before es i) = effects_log es initial_session ! i"
  by (simp add: before_def run_def effects_log_nth)

lemma sent_origin:
  "eff \<in> set (sent (run es)) \<Longrightarrow> \<exists>i<length es. eff \<in> set (emitted (es ! i) (before es i))"
proof (induction es rule: rev_induct)
  case Nil
  then show ?case by (simp add: run_def initial_session_def)
next
  case (snoc e es)
  from snoc.prems consider "eff \<in> set (sent (run es))" | "eff \<in> set (emitted e (run es))"
    by (auto simp: run_snoc sent_fire)
  then show ?case
  proof cases
    case 1
    from snoc.IH[OF 1] obtain i where "i < length es" "eff \<in> set (emitted (es ! i) (before es i))"
      by blast
    then show ?thesis
      by (intro exI[of _ i]) (simp add: nth_append before_snoc)
  next
    case 2
    then show ?thesis
      by (intro exI[of _ "length es"]) (simp add: before_snoc before_length)
  qed
qed


section \<open>No repeated question\<close>

lemma nrq_snoc:
  "no_repeated_question (ms @ [m]) \<longleftrightarrow>
     no_repeated_question ms
     \<and> (ms \<noteq> [] \<longrightarrow> \<not> (msg_placeholder m \<noteq> None \<and> msg_type (last ms) = Bot
                          \<and> msg_text (last ms) = msg_text m))"
  by (induction ms rule: no_repeated_question.induct) auto

lemma nrq_plain:
  "no_repeated_question ms \<Longrightarrow> msg_placeholder m = None \<Longrightarrow> no_repeated_question (ms @ [m])"
  by (simp add: nrq_snoc)

lemma nrq_plain_list:
  "no_repeated_question ms \<Longrightarrow> \<forall>m\<in>set xs. msg_placeholder m = None \<Longrightarrow>
     no_repeated_question (ms @ xs)"
proof (induction xs rule: rev_induct)
  case Nil
  then show ?case by simp
next
  case (snoc x xs)
  then have "no_repeated_question ((ms @ xs) @ [x])" by (intro nrq_plain) auto
  then show ?case by simp
qed

lemma nrq_add_question: "no_repeated_question ms \<Longrightarrow> no_repeated_question (add_question p ms)"
  by (auto simp: add_question_def nrq_snoc)

lemma nrq_set_pending:
  "no_repeated_question (messages s) \<Longrightarrow> no_repeated_question (messages (set_pending p s))"
  by (auto simp: set_pending_def Let_def nrq_add_question split: option.splits)

lemma nrq_generate_start:
  "no_repeated_question (messages s) \<Longrightarrow> no_repeated_question (messages (fst (generate_start s)))"
  by (auto simp: generate_start_def bot_def intro!: nrq_plain_list)

lemma nrq_generate_response:
  "no_repeated_question (messages s) \<Longrightarrow>
     no_repeated_question (messages (fst (generate_response g s)))"
  by (auto simp: generate_response_def error_def intro!: nrq_plain_list split: sum.splits)

lemma nrq_load_response:
  "no_repeated_question (messages s) \<Longrightarrow> no_repeated_question (messages (fst (load_response r s)))"
  by (auto simp: load_response_def Let_def error_def
      intro!: nrq_set_pending nrq_generate_start nrq_plain_list split: sum.splits option.splits)

lemma nrq_on_status:
  "no_repeated_question (messages s) \<Longrightarrow> no_repeated_question (messages (fst (on_status data s)))"
  by (auto simp: on_status_def bot_def intro!: nrq_plain_list)

lemma nrq_submit_response:
  "no_repeated_question (messages s) \<Longrightarrow> no_repeated_question (messages (fst (submit_response resp s)))"
  by (auto simp: submit_response_def case_prod_beta error_def intro!: nrq_on_status nrq_plain_list
      split: sum.splits)

lemma nrq_submit_start:
  "no_repeated_question (messages s) \<Longrightarrow> no_repeated_question (messages (fst (submit_start s)))"
  by (auto simp: submit_start_def user_def intro!: nrq_plain_list split: option.splits)

lemma nrq_accept_start:
  "no_repeated_question (messages s) \<Longrightarrow> no_repeated_question (messages (fst (accept_start s)))"
  by (auto simp: accept_start_def Let_def user_def error_def intro!: nrq_plain_list
      split: option.splits)

lemma nrq_accept_response:
  "no_repeated_question (messages s) \<Longrightarrow>
     no_repeated_question (messages (fst (accept_response resp s)))"
  by (auto simp: accept_response_def bot_def error_def intro!: nrq_plain_list split: sum.splits)

lemma nrq_resume:
  "no_repeated_question (messages c) \<Longrightarrow> resume q r c = Some res \<Longrightarrow>
     no_repeated_question (messages (fst res))"
  by (cases q; cases r)
     (auto intro: nrq_load_response nrq_submit_response nrq_accept_response nrq_generate_response)

lemma nrq_react:
  assumes "no_repeated_question (messages (chat_state s))"
  shows "no_repeated_question (messages (fst (react e s)))"
proof (cases e)
  case Timer
  then show ?thesis using assms by (simp add: load_start_def)
next
  case (Type t)
  then show ?thesis using assms by simp
next
  case Send
  then show ?thesis using assms by (simp add: nrq_submit_start)
next
  case Accept
  then show ?thesis using assms by (simp add: nrq_accept_start)
next
  case Skip
  then show ?thesis using assms
    by (auto simp: handleSkipAutoSuggest_def bot_def intro!: nrq_plain_list)
next
  case (Reply n r)
  then show ?thesis using assms nrq_resume[OF assms, of "in_flight s ! n" r]
    by (auto split: option.splits)
qed

lemma nrq_run: "no_repeated_question (messages (chat_state (run es)))"
proof (induction es rule: rev_induct)
  case Nil
  then show ?case by (simp add: run_def initial_session_def initial_chat_def)
next
  case (snoc e es)
  then show ?case by (simp add: run_snoc chat_fire nrq_react)
qed

text \<open>
  Claim C9. Let \<open>p\<close> be the first pending placeholder of a placeholders response. If \<open>p\<close>
  has the identifier of the placeholder that is already active, or the last message is a bot
  message with the question of \<open>p\<close>, \<open>loadNextQuestion\<close> leaves the messages as they are;
  otherwise it appends the question once. Running it a second time on the same response
  appends nothing. And in every session, no question directly follows a bot message with the
  same text.
\<close>

theorem next_question_not_repeated:
  assumes "data_placeholders data = pre @ p # post"
    and "\<forall>q\<in>set pre. status q \<noteq> str ''pending''"
    and "status p = str ''pending''"
  shows "((\<exists>c. currentPlaceholder s = Some c \<and> placeholder_id c = placeholder_id p)
            \<or> (messages s \<noteq> [] \<and> msg_type (last (messages s)) = Bot
                \<and> msg_text (last (messages s)) = questionText p)
          \<longrightarrow> messages (fst (loadNextQuestion (Inr data) g s)) = messages s)
     \<and> (\<not> ((\<exists>c. currentPlaceholder s = Some c \<and> placeholder_id c = placeholder_id p)
            \<or> (messages s \<noteq> [] \<and> msg_type (last (messages s)) = Bot
                \<and> msg_text (last (messages s)) = questionText p))
          \<longrightarrow> messages (fst (loadNextQuestion (Inr data) g s))
                = messages s @ [\<lparr>msg_type = Bot, msg_text = questionText p, msg_placeholder = Some p\<rparr>])
     \<and> messages (fst (loadNextQuestion (Inr data) g' (fst (loadNextQuestion (Inr data) g s))))
          = messages (fst (loadNextQuestion (Inr data) g s))
     \<and> no_repeated_question (messages (chat_state (run es)))"
proof -
  have f: "find (\<lambda>q. status q = str ''pending'') (data_placeholders data) = Some p"
    using assms by (intro find_first[where pre = pre and post = post]) auto
  have l: "messages (fst (loadNextQuestion (Inr data) h c)) =
      messages (set_pending p (c\<lparr>loading := True,
        progress_filled := unat (data_filled data) + unat (data_auto_filled data),
        progress_total := unat (data_total data)\<rparr>))" for h c
    by (simp add: loadNextQuestion_pending[OF f])
  have cur: "currentPlaceholder (fst (loadNextQuestion (Inr data) g s)) = Some p"
    by (simp add: loadNextQuestion_pending[OF f] set_pending_current)
  have 1: "(\<exists>c. currentPlaceholder s = Some c \<and> placeholder_id c = placeholder_id p)
            \<or> (messages s \<noteq> [] \<and> msg_type (last (messages s)) = Bot
                \<and> msg_text (last (messages s)) = questionText p)
          \<longrightarrow> messages (fst (loadNextQuestion (Inr data) g s)) = messages s"
    by (auto simp: l set_pending_def add_question_def Let_def split: option.splits)
  have 2: "\<not> ((\<exists>c. currentPlaceholder s = Some c \<and> placeholder_id c = placeholder_id p)
            \<or> (messages s \<noteq> [] \<and> msg_type (last (messages s)) = Bot
                \<and> msg_text (last (messages s)) = questionText p))
          \<longrightarrow> messages (fst (loadNextQuestion (Inr data) g s))
                = messages s @ [\<lparr>msg_type = Bot, msg_text = questionText p, msg_placeholder = Some p\<rparr>]"
    by (auto simp: l set_pending_def add_question_def Let_def split: option.splits)
  have 3: "messages (fst (loadNextQuestion (Inr data) g' (fst (loadNextQuestion (Inr data) g s))))
          = messages (fst (loadNextQuestion (Inr data) g s))"
    using cur by (simp add: l[of g'] set_pending_def Let_def)
  from 1 2 3 nrq_run show ?thesis by blast
qed

theorem next_question_not_repeated_witness:
  "messages (fst (loadNextQuestion (listing 1 0 [ph ''p1'' ''accepted'', ph ''p2'' ''pending''])
        (Inl []) initial_chat))
     = [\<lparr>msg_type = Bot, msg_text = str ''Please provide Company Name'',
         msg_placeholder = Some (ph ''p2'' ''pending'')\<rparr>]
   \<and> messages (fst (loadNextQuestion (listing 1 0 [ph ''p1'' ''accepted'', ph ''p2'' ''pending''])
        (Inl []) (initial_chat\<lparr>currentPlaceholder := Some (ph ''p2'' ''pending'')\<rparr>))) = []
   \<and> no_repeated_question (messages (chat_state (run offer_trace)))"
proof -
  let ?data = "\<lparr>data_filled = 1, data_auto_filled = 0,
     data_total = of_nat (length [ph ''p1'' ''accepted'', ph ''p2'' ''pending'']),
     data_placeholders = [ph ''p1'' ''accepted'', ph ''p2'' ''pending'']\<rparr>"
  let ?s = "initial_chat\<lparr>currentPlaceholder := Some (ph ''p2'' ''pending'')\<rparr>"
  have a: "data_placeholders ?data = [ph ''p1'' ''accepted''] @ ph ''p2'' ''pending'' # []"
    by simp
  have b: "\<forall>q\<in>set [ph ''p1'' ''accepted'']. status q \<noteq> str ''pending''"
    by (simp add: ph_def)
  have c: "status (ph ''p2'' ''pending'') = str ''pending''"
    by (simp add: ph_def)
  have d: "\<not> ((\<exists>c. currentPlaceholder initial_chat = Some c
              \<and> placeholder_id c = placeholder_id (ph ''p2'' ''pending''))
            \<or> (messages initial_chat \<noteq> [] \<and> msg_type (last (messages initial_chat)) = Bot
                \<and> msg_text (last (messages initial_chat)) = questionText (ph ''p2'' ''pending'')))"
    by (simp add: initial_chat_def)
  have e: "\<exists>c. currentPlaceholder ?s = Some c \<and> placeholder_id c = placeholder_id (ph ''p2'' ''pending'')"
    by simp
  have q: "questionText (ph ''p2'' ''pending'') = str ''Please provide Company Name''"
    by (simp add: questionText_def or_else_def ph_def str_def)
  have m: "messages ?s = []"
    by (simp add: initial_chat_def)
  show ?thesis
    using next_question_not_repeated[OF a b c, where s = initial_chat and g = "Inl []"
        and g' = "Inl []" and es = offer_trace]
      next_question_not_repeated[OF a b c, where s = ?s and g = "Inl []"
        and g' = "Inl []" and es = offer_trace]
      d e q m
    by (simp add: listing_def)
qed


section \<open>Consent to the auto-suggestion\<close>

lemma remaining_subset: "set (remaining e s) \<subseteq> set (in_flight s)"
proof (cases e)
  case (Reply n r)
  have "set (take n (in_flight s) @ drop (Suc n) (in_flight s)) \<subseteq> set (in_flight s)"
    using set_take_subset[of n "in_flight s"] set_drop_subset[of "Suc n" "in_flight s"] by auto
  then show ?thesis using Reply by auto
qed simp_all

lemma awaits_submit:
  "SubmitRequest pid \<in> set (awaits e eff) \<Longrightarrow> \<not> by_accept e \<and> (\<exists>u c. eff = FetchFill pid u c)"
  by (cases eff) (auto split: if_splits)

text \<open>Every typed answer that awaits its reply was sent to the placeholder then active.\<close>

lemma flight_origin:
  "SubmitRequest pid \<in> set (in_flight (run es)) \<Longrightarrow>
     \<exists>r<length es. es ! r = Send \<and> active_id (before es r) = Some pid
        \<and> list_ex (is_request_for pid) (emitted (es ! r) (before es r))"
proof (induction es rule: rev_induct)
  case Nil
  then show ?case by (simp add: run_def initial_session_def)
next
  case (snoc e es)
  from snoc.prems consider "SubmitRequest pid \<in> set (in_flight (run es))"
    | "SubmitRequest pid \<in> set (concat (map (awaits e) (emitted e (run es))))"
    using remaining_subset[of e "run es"] by (auto simp: run_snoc flight_fire)
  then show ?case
  proof cases
    case 1
    from snoc.IH[OF 1] obtain r where r: "r < length es" "es ! r = Send"
      "active_id (before es r) = Some pid"
      "list_ex (is_request_for pid) (emitted (es ! r) (before es r))"
      by blast
    then show ?thesis
      by (intro exI[of _ r]) (simp add: nth_append before_snoc)
  next
    case 2
    then obtain eff where eff: "eff \<in> set (emitted e (run es))" "SubmitRequest pid \<in> set (awaits e eff)"
      by auto
    from awaits_submit[OF eff(2)] obtain u c where f: "\<not> by_accept e" "eff = FetchFill pid u c"
      by blast
    from fill_request_origin[of pid u c e "run es"] eff(1) f
    have "e = Send" "active_id (run es) = Some pid" by auto
    moreover have "list_ex (is_request_for pid) (emitted e (run es))"
      using eff(1) f(2) by (auto simp: list_ex_iff intro!: bexI[of _ "FetchFill pid u c"])
    ultimately show ?thesis
      by (intro exI[of _ "length es"]) (simp add: before_snoc before_length)
  qed
qed

text \<open>While the flag is up, an offer has been made and not declined since.\<close>

lemma flag_invariant:
  "showAutoSuggest (chat_state (run es)) \<Longrightarrow>
     \<exists>j<length es. \<exists>pid. offered pid (es ! j) (before es j)
        \<and> (\<forall>k. j < k \<and> k < length es \<longrightarrow> \<not> declined (es ! k) (before es k))"
proof (induction es rule: rev_induct)
  case Nil
  then show ?case by (simp add: run_def initial_session_def initial_chat_def)
next
  case (snoc e es)
  let ?s = "run es"
  have after: "showAutoSuggest (chat_state (fire ?s e))"
    using snoc.prems by (simp add: run_snoc)
  show ?case
  proof (cases "showAutoSuggest (chat_state ?s)")
    case False
    from flag_raised[OF after False] obtain pid where "offered pid e ?s" by blast
    then have "offered pid ((es @ [e]) ! length es) (before (es @ [e]) (length es))"
      by (simp add: before_snoc before_length)
    moreover have "\<forall>k. length es < k \<and> k < length (es @ [e])
        \<longrightarrow> \<not> declined ((es @ [e]) ! k) (before (es @ [e]) k)"
      by auto
    moreover have "length es < length (es @ [e])" by simp
    ultimately show ?thesis by blast
  next
    case True
    from snoc.IH[OF True] obtain j pid where j: "j < length es"
      "offered pid (es ! j) (before es j)"
      "\<forall>k. j < k \<and> k < length es \<longrightarrow> \<not> declined (es ! k) (before es k)"
      by blast
    have nd: "\<not> declined e ?s" by (rule flag_kept[OF after])
    have "\<not> declined ((es @ [e]) ! k) (before (es @ [e]) k)"
      if "j < k \<and> k < length (es @ [e])" for k
    proof (cases "k < length es")
      case True
      then show ?thesis using j(3) that by (simp add: nth_append before_snoc)
    next
      case False
      then have "k = length es" using that by simp
      then show ?thesis using nd by (simp add: before_snoc before_length)
    qed
    then have "\<forall>k. j < k \<and> k < length (es @ [e])
        \<longrightarrow> \<not> declined ((es @ [e]) ! k) (before (es @ [e]) k)"
      by blast
    moreover have "offered pid ((es @ [e]) ! j) (before (es @ [e]) j)"
      using j(1,2) by (simp add: nth_append before_snoc)
    moreover have "j < length (es @ [e])" using j(1) by simp
    ultimately show ?thesis by blast
  qed
qed

lemma offered_in_flight:
  assumes "offered pid e s"
  shows "SubmitRequest pid \<in> set (in_flight s)"
proof -
  from assms obtain n r where "e = Reply n r" "n < length (in_flight s)"
    "in_flight s ! n = SubmitRequest pid"
    by (cases e) (auto simp: offered_def split: if_splits)
  then show ?thesis using nth_mem[of n "in_flight s"] by simp
qed

lemma consent_origin:
  assumes "i < length es" "FetchFill pid u True \<in> set (emitted (es ! i) (before es i))"
  shows "active_id (before es i) = Some pid
     \<and> (\<exists>j<i. \<exists>pid'. offered pid' (es ! j) (before es j)
          \<and> (\<forall>k. j < k \<and> k < i \<longrightarrow> \<not> declined (es ! k) (before es k))
          \<and> (\<exists>r<j. es ! r = Send \<and> active_id (before es r) = Some pid'
                \<and> list_ex (is_request_for pid') (emitted (es ! r) (before es r))))"
proof -
  from fill_request_origin[OF assms(2)]
  have act: "active_id (before es i) = Some pid"
    and flag: "showAutoSuggest (chat_state (run (take i es)))"
    by (auto simp: before_def)
  have len: "length (take i es) = i" using assms(1) by simp
  from flag_invariant[OF flag] obtain j pid' where j0: "j < length (take i es)"
    "offered pid' (take i es ! j) (before (take i es) j)"
    "\<forall>k. j < k \<and> k < length (take i es)
        \<longrightarrow> \<not> declined (take i es ! k) (before (take i es) k)"
    by blast
  have j: "j < i"
    "offered pid' (take i es ! j) (before (take i es) j)"
    "\<forall>k. j < k \<and> k < i \<longrightarrow> \<not> declined (take i es ! k) (before (take i es) k)"
    using j0 by (simp_all only: len)
  have 1: "offered pid' (es ! j) (before es j)"
    using j(1,2) by (simp add: before_take)
  have 2: "\<forall>k. j < k \<and> k < i \<longrightarrow> \<not> declined (es ! k) (before es k)"
  proof (intro allI impI)
    fix k assume k: "j < k \<and> k < i"
    then have "\<not> declined (take i es ! k) (before (take i es) k)" using j(3) by blast
    then show "\<not> declined (es ! k) (before es k)" using k by (simp add: before_take)
  qed
  have "SubmitRequest pid' \<in> set (in_flight (run (take j es)))"
    using offered_in_flight[OF 1] by (simp add: before_def)
  from flight_origin[OF this] obtain r where r: "r < length (take j es)"
    "take j es ! r = Send" "active_id (before (take j es) r) = Some pid'"
    "list_ex (is_request_for pid') (emitted (take j es ! r) (before (take j es) r))"
    by blast
  have rj: "r < j" using r(1) by simp
  have 3: "\<exists>r<j. es ! r = Send \<and> active_id (before es r) = Some pid'
                \<and> list_ex (is_request_for pid') (emitted (es ! r) (before es r))"
    using r rj by (intro exI[of _ r]) (simp add: before_take)
  from act j(1) 1 2 3 show ?thesis by blast
qed

lemma list_ex_consent:
  "list_ex is_consent_request effs \<Longrightarrow> \<exists>pid u. FetchFill pid u True \<in> set effs"
proof (induction effs)
  case Nil then show ?case by simp
next
  case (Cons a effs)
  then show ?case by (cases a) auto
qed

lemma offered_status: "offered pid e s \<Longrightarrow> reply_status e = Some (str ''offer_auto_suggest'')"
  by (simp add: offered_def)

lemma no_offer_no_consent:
  assumes "\<forall>e\<in>set es. reply_status e \<noteq> Some (str ''offer_auto_suggest'')"
  shows "\<not> list_ex is_consent_request (sent (run es))"
proof
  assume "list_ex is_consent_request (sent (run es))"
  from list_ex_consent[OF this] obtain pid u where "FetchFill pid u True \<in> set (sent (run es))"
    by blast
  from sent_origin[OF this] obtain i where i: "i < length es"
    "FetchFill pid u True \<in> set (emitted (es ! i) (before es i))" by blast
  from consent_origin[OF i] obtain j pid' where j: "j < i" "offered pid' (es ! j) (before es j)"
    by blast
  then have "es ! j \<in> set es" using i(1) by simp
  with assms offered_status[OF j(2)] show False by blast
qed

text \<open>
  Claim C1, amended. In every session, a request to \<open>fill_placeholder\<close> that carries
  \<open>consent_auto_suggest = true\<close> is addressed to the placeholder that is active when it is
  sent. It comes after a response with status \<open>offer_auto_suggest\<close> to a typed answer, and the
  user has not declined (the skip button) between the two; that answer was sent to the
  placeholder that was active when it was typed. And a session in which no response has the
  status \<open>offer_auto_suggest\<close>, such as one whose submissions are all rejected, sends no
  request with consent. The handlers run in parts here, so the requests may overlap and the
  replies may come in any order.
\<close>

theorem consent_only_after_offer:
  "(i < length es \<and> FetchFill pid u True \<in> set (emitted (es ! i) (before es i)) \<longrightarrow>
      active_id (before es i) = Some pid
      \<and> (\<exists>j<i. \<exists>pid'. offered pid' (es ! j) (before es j)
           \<and> (\<forall>k. j < k \<and> k < i \<longrightarrow> \<not> declined (es ! k) (before es k))
           \<and> (\<exists>r<j. es ! r = Send \<and> active_id (before es r) = Some pid'
                 \<and> list_ex (is_request_for pid') (emitted (es ! r) (before es r)))))
   \<and> ((\<forall>e\<in>set es. reply_status e \<noteq> Some (str ''offer_auto_suggest''))
        \<longrightarrow> \<not> list_ex is_consent_request (sent (run es)))"
proof (intro conjI impI)
  assume a: "i < length es \<and> FetchFill pid u True \<in> set (emitted (es ! i) (before es i))"
  then have i: "i < length es"
    and f: "FetchFill pid u True \<in> set (emitted (es ! i) (before es i))"
    by simp_all
  from consent_origin[OF i f] show "active_id (before es i) = Some pid"
    by blast
  from consent_origin[OF i f]
  show "\<exists>j<i. \<exists>pid'. offered pid' (es ! j) (before es j)
           \<and> (\<forall>k. j < k \<and> k < i \<longrightarrow> \<not> declined (es ! k) (before es k))
           \<and> (\<exists>r<j. es ! r = Send \<and> active_id (before es r) = Some pid'
                 \<and> list_ex (is_request_for pid') (emitted (es ! r) (before es r)))"
    by blast
next
  assume "\<forall>e\<in>set es. reply_status e \<noteq> Some (str ''offer_auto_suggest'')"
  then show "\<not> list_ex is_consent_request (sent (run es))"
    by (rule no_offer_no_consent)
qed

text \<open>What the events of the sessions \<open>offer_trace\<close> and \<open>race_trace\<close> send and answer.\<close>

lemma offer_log:
  "effects_log offer_trace initial_session
     = [FetchPlaceholders] # [] # [] # [FetchFill (str ''p1'') (str ''x'') False] # [] #
       [FetchFill (str ''p1'') (str ''auto'') True] # []"
  by (simp add: offer_trace_def first_answer_def eval_defs)


lemma trail_length: "length (trail es s) = length es"
  by (induction es arbitrary: s) simp_all

lemma race_log:
  "effects_log race_trace initial_session
     = [FetchPlaceholders] # [] # [] # [FetchFill (str ''p1'') (str ''a'') False] #
       [SetTimeout_loadNextQuestion] # [] # [FetchFill (str ''p1'') (str ''b'') False] # [] #
       [FetchPlaceholders] # [] # [FetchFill (str ''p2'') (str ''auto'') True] # []"
  by (simp add: race_trace_def eval_defs)

lemma race_trail:
  "map (\<lambda>s. (active_id s, in_flight s)) (trail race_trace initial_session)
     = [(None, []), (None, [PlaceholdersRequest]), (Some (str ''p1''), []),
        (Some (str ''p1''), []), (Some (str ''p1''), [SubmitRequest (str ''p1'')]),
        (Some (str ''p1''), []), (Some (str ''p1''), []),
        (Some (str ''p1''), [SubmitRequest (str ''p1'')]), (Some (str ''p1''), []),
        (Some (str ''p1''), [PlaceholdersRequest]), (Some (str ''p2''), [])]"
  by (simp add: race_trace_def active_id_def eval_defs)

theorem consent_only_after_offer_witness:
  "active_id (before offer_trace 5) = Some (str ''p1'')
   \<and> (\<exists>j<5. \<exists>pid'. offered pid' (offer_trace ! j) (before offer_trace j)
        \<and> (\<forall>k. j < k \<and> k < 5 \<longrightarrow> \<not> declined (offer_trace ! k) (before offer_trace k))
        \<and> (\<exists>r<j. offer_trace ! r = Send \<and> active_id (before offer_trace r) = Some pid'
              \<and> list_ex (is_request_for pid') (emitted (offer_trace ! r) (before offer_trace r))))
   \<and> \<not> list_ex is_consent_request (sent (run rejected_trace))"
proof -
  have len: "length offer_trace = 6" by (simp add: offer_trace_def first_answer_def)
  have a: "5 < length offer_trace
      \<and> FetchFill (str ''p1'') (str ''auto'') True
          \<in> set (emitted (offer_trace ! 5) (before offer_trace 5))"
    using emitted_log[of 5 offer_trace] offer_log by (simp add: len)
  have r: "\<forall>e\<in>set rejected_trace. reply_status e \<noteq> Some (str ''offer_auto_suggest'')"
    by (simp add: rejected_trace_def first_answer_def listing_def answer_def)
  show ?thesis
    using consent_only_after_offer[of 5 offer_trace "str ''p1''" "str ''auto''"]
      consent_only_after_offer[of 0 rejected_trace "[]" "[]"] a r
    by blast
qed

text \<open>
  The claim as it was stated also asks that the offer was made for the placeholder that is
  active when the consent is sent. In the session \<open>race_trace\<close> the request with consent
  goes to the placeholder \<open>p2\<close>, which is active then, and no response before it answered a
  request for \<open>p2\<close>: the only offer answered an answer for \<open>p1\<close>.
\<close>

theorem consent_sent_for_other_placeholder:
  "FetchFill (str ''p2'') (str ''auto'') True
      \<in> set (emitted (race_trace ! 10) (before race_trace 10))
   \<and> active_id (before race_trace 10) = Some (str ''p2'')
   \<and> \<not> (\<exists>j<10. offered (str ''p2'') (race_trace ! j) (before race_trace j))"
proof -
  have len: "length race_trace = 11" by (simp add: race_trace_def)
  have 1: "FetchFill (str ''p2'') (str ''auto'') True
      \<in> set (emitted (race_trace ! 10) (before race_trace 10))"
    using emitted_log[of 10 race_trace] race_log by (simp add: len)
  have tr: "trail race_trace initial_session ! j
      = before race_trace j" if "j < 11" for j
    using that before_trail[of j race_trace] by (simp add: len)
  have fl: "map (\<lambda>s. (active_id s, in_flight s)) (trail race_trace initial_session) ! j
      = (active_id (before race_trace j), in_flight (before race_trace j))" if "j < 11" for j
    using that tr[OF that] by (simp add: trail_length len)
  have 2: "active_id (before race_trace 10) = Some (str ''p2'')"
    using fl[of 10] by (simp add: race_trail)
  have 3: "\<not> (\<exists>j<10. offered (str ''p2'') (race_trace ! j) (before race_trace j))"
  proof
    assume "\<exists>j<10. offered (str ''p2'') (race_trace ! j) (before race_trace j)"
    then obtain j where j: "j < 10" "offered (str ''p2'') (race_trace ! j) (before race_trace j)"
      by blast
    from offered_in_flight[OF j(2)]
    have m: "SubmitRequest (str ''p2'') \<in> set (in_flight (before race_trace j))" .
    have "\<forall>x\<in>set (map (\<lambda>s. (active_id s, in_flight s)) (trail race_trace initial_session)).
        SubmitRequest (str ''p2'') \<notin> set (snd x)"
      by (simp add: race_trail)
    moreover have "map (\<lambda>s. (active_id s, in_flight s)) (trail race_trace initial_session) ! j
        \<in> set (map (\<lambda>s. (active_id s, in_flight s)) (trail race_trace initial_session))"
      using j(1) by (intro nth_mem) (simp add: trail_length len)
    ultimately have "SubmitRequest (str ''p2'') \<notin> set (in_flight (before race_trace j))"
      using fl[of j] j(1) by auto
    with m show False by blast
  qed
  from 1 2 3 show ?thesis by blast
qed


text \<open>
  The same happens when requests overlap and no load is scheduled while the answer is typed:
  in the session \<open>overlap_trace\<close> the last request carries consent for \<open>p2\<close>, after an
  offer that answered the text sent to \<open>p1\<close>.
\<close>

lemma overlap_log:
  "effects_log overlap_trace initial_session
     = [FetchPlaceholders] # [] # [] # [FetchFill (str ''p1'') (str ''x'') False] # [] #
       [FetchFill (str ''p1'') (str ''auto'') True] # [FetchFill (str ''p1'') (str ''auto'') True] #
       [] # [] # [FetchFill (str ''p1'') (str ''dummy'') False] #
       [SetTimeout_loadNextQuestion] # [] # [FetchPlaceholders] # [] #
       [FetchFill (str ''p2'') (str ''auto'') True] # []"
  by (simp add: overlap_trace_def first_answer_def eval_defs)


section \<open>Completion\<close>









lemma awaits_fill:
  "count_list (awaits e (FetchFill pid u c)) GenerateRequest = 0"
  "count_list (awaits e (FetchFill pid u c)) PlaceholdersRequest = 0"
  by simp_all









section \<open>What the user is told\<close>








section \<open>Draft and final\<close>










end
